theory Spec2Isabelle
  imports Main "HOL-Library.Char_ord" "HOL-Library.List_Lexorder" "HOL-Library.AList"
begin

section \<open>Text\<close>

text \<open>
  The program \<^verbatim>\<open>gen_glad_doxygen.py\<close> works on Python strings. A string is modelled
  as a list of characters and a character stands for its code point, so the model covers
  text whose code points are below 256. The predicates below are Python's own classes of
  characters, cut to that range.
\<close>

text \<open>
  White space as \<^verbatim>\<open>str.strip\<close>, \<^verbatim>\<open>str.split\<close> and the pattern \<^verbatim>\<open>\s\<close> see it:
  tab, line feed, vertical tab, form feed, carriage return, the four separators
  \<^verbatim>\<open>\x1c\<close> to \<^verbatim>\<open>\x1f\<close>, space, next line (\<^verbatim>\<open>\x85\<close>) and no-break space (\<^verbatim>\<open>\xa0\<close>).
\<close>

definition is_space :: "char \<Rightarrow> bool" where
  "is_space c \<longleftrightarrow>
     c \<in> {CHR 0x09, CHR 0x0A, CHR 0x0B, CHR 0x0C, CHR 0x0D, CHR 0x1C, CHR 0x1D, CHR 0x1E,
          CHR 0x1F, CHR 0x20, CHR 0x85, CHR 0xA0}"

definition lstrip :: "string \<Rightarrow> string" where
  "lstrip s = dropWhile is_space s"

definition rstrip :: "string \<Rightarrow> string" where
  "rstrip s = rev (dropWhile is_space (rev s))"

definition strip :: "string \<Rightarrow> string" where
  "strip s = rstrip (lstrip s)"

definition startswith :: "string \<Rightarrow> string \<Rightarrow> bool" where
  "startswith s p \<longleftrightarrow> take (length p) s = p"

definition endswith :: "string \<Rightarrow> string \<Rightarrow> bool" where
  "endswith s p \<longleftrightarrow> length p \<le> length s \<and> drop (length s - length p) s = p"

text \<open>\<^verbatim>\<open>sub in s\<close>: the string \<open>sub\<close> occurs in \<open>s\<close> as a contiguous run.\<close>

fun occurs_in :: "string \<Rightarrow> string \<Rightarrow> bool" where
  "occurs_in sub [] \<longleftrightarrow> sub = []"
| "occurs_in sub (c # cs) \<longleftrightarrow> startswith (c # cs) sub \<or> occurs_in sub cs"

text \<open>\<^verbatim>\<open>sep.join(xs)\<close>.\<close>

fun join :: "string \<Rightarrow> string list \<Rightarrow> string" where
  "join sep [] = []"
| "join sep [x] = x"
| "join sep (x # y # ys) = x @ sep @ join sep (y # ys)"

text \<open>\<^verbatim>\<open>s.split()\<close>: the maximal runs of characters that are not white space.\<close>

function split_ws :: "string \<Rightarrow> string list" where
  "split_ws s =
     (case dropWhile is_space s of
        [] \<Rightarrow> []
      | c # cs \<Rightarrow> takeWhile (\<lambda>x. \<not> is_space x) (c # cs)
                 # split_ws (dropWhile (\<lambda>x. \<not> is_space x) (c # cs)))"
  by pat_completeness auto
termination
proof (relation "measure length")
  show "wf (measure length)" by simp
next
  fix s :: string and c :: char and cs :: string
  assume a: "dropWhile is_space s = c # cs"
  have "\<not> is_space c"
    using a hd_dropWhile[of is_space s] by auto
  then have "length (dropWhile (\<lambda>x. \<not> is_space x) (c # cs)) \<le> length cs"
    by (simp add: length_dropWhile_le)
  moreover have "length (c # cs) \<le> length s"
    using a length_dropWhile_le[of is_space s] by simp
  ultimately show "(dropWhile (\<lambda>x. \<not> is_space x) (c # cs), s) \<in> measure length"
    by simp
qed

declare split_ws.simps [simp del]

text \<open>\<^verbatim>\<open>norm_ws\<close>: \<^verbatim>\<open>" ".join(s.split())\<close>.\<close>

definition norm_ws :: "string \<Rightarrow> string" where
  "norm_ws s = join '' '' (split_ws s)"

text \<open>
  \<^verbatim>\<open>str.splitlines\<close>. A line ends at line feed, carriage return (with a line feed
  right after it, the two are one terminator), vertical tab, form feed, \<^verbatim>\<open>\x1c\<close>,
  \<^verbatim>\<open>\x1d\<close>, \<^verbatim>\<open>\x1e\<close> or \<^verbatim>\<open>\x85\<close>; the terminators are not part of the lines, and a
  terminator at the very end opens no further line.
\<close>

definition is_linebreak :: "char \<Rightarrow> bool" where
  "is_linebreak c \<longleftrightarrow>
     c \<in> {CHR 0x0A, CHR 0x0B, CHR 0x0C, CHR 0x0D, CHR 0x1C, CHR 0x1D, CHR 0x1E, CHR 0x85}"

fun drop_terminator :: "string \<Rightarrow> string" where
  "drop_terminator [] = []"
| "drop_terminator [c] = []"
| "drop_terminator (c # d # r) = (if c = CHR 0x0D \<and> d = CHR 0x0A then r else d # r)"

function splitlines :: "string \<Rightarrow> string list" where
  "splitlines s =
     (if s = [] then []
      else takeWhile (\<lambda>c. \<not> is_linebreak c) s
           # splitlines (drop_terminator (dropWhile (\<lambda>c. \<not> is_linebreak c) s)))"
  by pat_completeness auto
termination
proof (relation "measure length")
  show "wf (measure length)" by simp
next
  fix s :: string
  assume a: "s \<noteq> []"
  have d: "length (drop_terminator r) \<le> length r - 1" for r
    by (induction r rule: drop_terminator.induct) simp_all
  have "length (drop_terminator (dropWhile (\<lambda>c. \<not> is_linebreak c) s))
          \<le> length (dropWhile (\<lambda>c. \<not> is_linebreak c) s) - 1"
    by (rule d)
  also have "\<dots> \<le> length s - 1"
    by (simp add: length_dropWhile_le diff_le_mono)
  also have "\<dots> < length s"
    using a by simp
  finally show "(drop_terminator (dropWhile (\<lambda>c. \<not> is_linebreak c) s), s) \<in> measure length"
    by simp
qed

declare splitlines.simps [simp del]

text \<open>
  Truth of an optional string, as in \<^verbatim>\<open>if not name\<close>: \<^verbatim>\<open>None\<close> and the empty string
  are false. \<^verbatim>\<open>a or b\<close> is \<^verbatim>\<open>a\<close> when \<^verbatim>\<open>a\<close> is true and \<^verbatim>\<open>b\<close> otherwise;
  \<^verbatim>\<open>a or b or ""\<close> is a string.
\<close>

definition truthy :: "string option \<Rightarrow> bool" where
  "truthy x \<longleftrightarrow> (case x of None \<Rightarrow> False | Some s \<Rightarrow> s \<noteq> [])"

definition py_or :: "string option \<Rightarrow> string option \<Rightarrow> string option" where
  "py_or a b = (if truthy a then a else b)"

definition or_empty :: "string option \<Rightarrow> string" where
  "or_empty a = (case a of None \<Rightarrow> [] | Some s \<Rightarrow> s)"

text \<open>\<^verbatim>\<open>s.replace(old, "")\<close>: the occurrences of \<open>old\<close> are cut out from left to right.\<close>

function remove_all :: "string \<Rightarrow> string \<Rightarrow> string" where
  "remove_all old [] = []"
| "remove_all old (c # cs) =
     (if old \<noteq> [] \<and> startswith (c # cs) old then remove_all old (drop (length old) (c # cs))
      else c # remove_all old cs)"
  by pat_completeness auto
termination
  by (relation "measure (\<lambda>(old, s). length s)") auto

text \<open>
  The characters of a word for the pattern \<^verbatim>\<open>\b\<close>: letters, digits and the underscore,
  with the letters and numeric characters of the code points from 128 to 255.
\<close>

definition is_word_char :: "char \<Rightarrow> bool" where
  "is_word_char c \<longleftrightarrow>
     (CHR ''A'' \<le> c \<and> c \<le> CHR ''Z'') \<or> (CHR ''a'' \<le> c \<and> c \<le> CHR ''z'') \<or>
     (CHR ''0'' \<le> c \<and> c \<le> CHR ''9'') \<or> c = CHR ''_'' \<or>
     c \<in> {CHR 0xAA, CHR 0xB2, CHR 0xB3, CHR 0xB5, CHR 0xB9, CHR 0xBA, CHR 0xBC, CHR 0xBD, CHR 0xBE} \<or>
     (CHR 0xC0 \<le> c \<and> c \<le> CHR 0xD6) \<or> (CHR 0xD8 \<le> c \<and> c \<le> CHR 0xF6) \<or> CHR 0xF8 \<le> c"

text \<open>
  \<^verbatim>\<open>re.sub(r"\b" + re.escape(w) + r"\b", "", s)\<close>: the occurrences of \<open>w\<close> that stand
  between two word boundaries are cut out, from left to right. A boundary lies between a
  word character and a character that is none, the two ends of the string counting as
  none. The flag \<open>prev\<close> tells whether the character before the current position is a word
  character. With \<open>w\<close> empty the pattern matches empty strings only and \<open>s\<close> is unchanged.
\<close>

function remove_word_from :: "string \<Rightarrow> bool \<Rightarrow> string \<Rightarrow> string" where
  "remove_word_from w prev [] = []"
| "remove_word_from w prev (c # cs) =
     (if w \<noteq> [] \<and> startswith (c # cs) w \<and> prev \<noteq> is_word_char (hd w) \<and>
         is_word_char (last w) \<noteq>
           (case drop (length w) (c # cs) of [] \<Rightarrow> False | d # r \<Rightarrow> is_word_char d)
      then remove_word_from w (is_word_char (last w)) (drop (length w) (c # cs))
      else c # remove_word_from w (is_word_char c) cs)"
  by pat_completeness auto
termination
  by (relation "measure (\<lambda>(w, prev, s). length s)") auto

definition remove_word :: "string \<Rightarrow> string \<Rightarrow> string" where
  "remove_word w s = remove_word_from w False s"

text \<open>\<^verbatim>\<open>s.lower()\<close>, on the code points below 256.\<close>

definition lower_char :: "char \<Rightarrow> char" where
  "lower_char c =
     (if (CHR ''A'' \<le> c \<and> c \<le> CHR ''Z'') \<or> (CHR 0xC0 \<le> c \<and> c \<le> CHR 0xD6) \<or>
         (CHR 0xD8 \<le> c \<and> c \<le> CHR 0xDE)
      then char_of (of_char c + (32 :: nat)) else c)"

definition lower :: "string \<Rightarrow> string" where
  "lower s = map lower_char s"

text \<open>\<^verbatim>\<open>s.split(".")\<close>, for a separator of one character.\<close>

fun split_on :: "char \<Rightarrow> string \<Rightarrow> string list" where
  "split_on sep [] = [[]]"
| "split_on sep (c # cs) =
     (if c = sep then [] # split_on sep cs
      else (case split_on sep cs of [] \<Rightarrow> [[c]] | h # t \<Rightarrow> (c # h) # t))"

text \<open>
  \<^verbatim>\<open>int(s)\<close>: white space around the number is dropped; a sign may come first; the
  digits may be grouped by single underscores between two digits. Anything else raises
  ValueError, which is \<open>None\<close> here. (The interpreter's limit on the number of digits of
  a decimal string is outside the model.)
\<close>

definition is_digit :: "char \<Rightarrow> bool" where
  "is_digit c \<longleftrightarrow> CHR ''0'' \<le> c \<and> c \<le> CHR ''9''"

fun valid_digits :: "bool \<Rightarrow> string \<Rightarrow> bool" where
  "valid_digits after_digit [] \<longleftrightarrow> after_digit"
| "valid_digits after_digit (c # cs) \<longleftrightarrow>
     (if is_digit c then valid_digits True cs
      else if c = CHR ''_'' \<and> after_digit then valid_digits False cs
      else False)"

definition digits_value :: "string \<Rightarrow> int" where
  "digits_value ds = foldl (\<lambda>n c. 10 * n + (int (of_char c) - 48)) 0 (filter is_digit ds)"

definition py_int :: "string \<Rightarrow> int option" where
  "py_int s =
     (case strip s of
        [] \<Rightarrow> None
      | c # r \<Rightarrow>
          (let ds = (if c = CHR ''-'' \<or> c = CHR ''+'' then r else c # r) in
           if valid_digits False ds
           then Some (if c = CHR ''-'' then - digits_value ds else digits_value ds)
           else None))"

section \<open>Documents\<close>

text \<open>
  The registry and the reference pages are XML documents, read with
  \<^verbatim>\<open>xml.etree.ElementTree\<close>. An element has a tag (a tag in a namespace is written
  \<^verbatim>\<open>{uri}local\<close>), its attributes, the text before its first child, its children, and
  the text after its end tag. Absent text is the empty string here: the program reads
  text through \<^verbatim>\<open>findtext\<close> and \<^verbatim>\<open>itertext\<close> only, and both read absent text as
  empty.
\<close>

datatype element =
  Element (el_tag: string) (el_attrib: "(string \<times> string) list") (el_text: string)
    (el_children: "element list") (el_tail: string)

text \<open>\<^verbatim>\<open>elem.get(key)\<close>.\<close>

definition el_get :: "element \<Rightarrow> string \<Rightarrow> string option" where
  "el_get e k = map_of (el_attrib e) k"

text \<open>\<^verbatim>\<open>flatten_text\<close>: \<^verbatim>\<open>"".join(elem.itertext())\<close>.\<close>

fun flatten_text :: "element \<Rightarrow> string" where
  "flatten_text (Element t a x cs y) = x @ concat (map (\<lambda>c. flatten_text c @ el_tail c) cs)"

text \<open>The elements below an element, in document order.\<close>

fun descendants :: "element \<Rightarrow> element list" where
  "descendants (Element t a x cs y) = concat (map (\<lambda>c. c # descendants c) cs)"

text \<open>
  The paths the program uses: \<^verbatim>\<open>./tag\<close> and \<^verbatim>\<open>tag\<close> select the children with that
  tag, \<^verbatim>\<open>.//tag\<close> the elements below with that tag; \<^verbatim>\<open>find\<close> gives the first element
  selected and \<^verbatim>\<open>findtext\<close> its text.
\<close>

definition findall_child :: "string \<Rightarrow> element \<Rightarrow> element list" where
  "findall_child t e = filter (\<lambda>c. el_tag c = t) (el_children e)"

definition findall_desc :: "string \<Rightarrow> element \<Rightarrow> element list" where
  "findall_desc t e = filter (\<lambda>c. el_tag c = t) (descendants e)"

definition find_child :: "string \<Rightarrow> element \<Rightarrow> element option" where
  "find_child t e = (case findall_child t e of [] \<Rightarrow> None | c # cs \<Rightarrow> Some c)"

definition findtext_child :: "string \<Rightarrow> element \<Rightarrow> string option" where
  "findtext_child t e = map_option el_text (find_child t e)"

definition findtext_desc :: "string \<Rightarrow> element \<Rightarrow> string option" where
  "findtext_desc t e = (case findall_desc t e of [] \<Rightarrow> None | c # cs \<Rightarrow> Some (el_text c))"

text \<open>A tag in the DocBook namespace, \<^verbatim>\<open>db:local\<close> under \<^verbatim>\<open>DB_NS\<close>.\<close>

definition db :: "string \<Rightarrow> string" where
  "db local = ''{http://docbook.org/ns/docbook}'' @ local"

section \<open>Registry model\<close>

text \<open>
  The registry object of \<^verbatim>\<open>gen_glad_doxygen.py\<close> holds four dictionaries that its
  constructor fills from the registry document. A dictionary is modelled as an
  association list read through \<open>map_of\<close>: it is finite, as every Python dictionary is,
  and nothing in the program depends on the order of its keys.
\<close>

record reg_param =
  p_type :: string
  p_name :: string
  p_group :: "string option"
  p_len :: "string option"

record command_info =
  c_ret :: string
  c_params :: "reg_param list"
  c_alias :: "string option"

record GLRegistry =
  commands :: "(string \<times> command_info) list"
  alias_of :: "(string \<times> string) list"
  introduced_version :: "(string \<times> string) list"
  extensions_for_cmd :: "(string \<times> string set) list"

text \<open>
  \<^verbatim>\<open>resolve_alias\<close>: the loop
  \<^verbatim>\<open>while cur in self.alias_of and cur not in seen: seen.add(cur); cur = self.alias_of[cur]\<close>
  with its two variables as arguments; the value is \<^verbatim>\<open>cur\<close> when the loop is left.
\<close>

function resolve_alias_loop :: "(string \<times> string) list \<Rightarrow> string set \<Rightarrow> string \<Rightarrow> string" where
  "resolve_alias_loop al seen cur =
     (case map_of al cur of
        None \<Rightarrow> cur
      | Some nxt \<Rightarrow> if cur \<notin> seen then resolve_alias_loop al (insert cur seen) nxt else cur)"
  by pat_completeness auto
termination
proof (relation "measure (\<lambda>(al, seen, cur). card (dom (map_of al) - seen))")
  show "wf (measure (\<lambda>(al, seen, cur). card (dom (map_of al) - seen)))"
    by simp
next
  fix al :: "(string \<times> string) list" and seen :: "string set" and cur nxt :: string
  assume a: "map_of al cur = Some nxt" "cur \<notin> seen"
  have "dom (map_of al) - insert cur seen \<subset> dom (map_of al) - seen"
    using a by auto
  then have "card (dom (map_of al) - insert cur seen) < card (dom (map_of al) - seen)"
    by (intro psubset_card_mono) (simp_all add: finite_dom_map_of)
  then show "((al, insert cur seen, nxt), (al, seen, cur))
      \<in> measure (\<lambda>(al, seen, cur). card (dom (map_of al) - seen))"
    by simp
qed

declare resolve_alias_loop.simps [simp del]

definition resolve_alias :: "GLRegistry \<Rightarrow> string \<Rightarrow> string" where
  "resolve_alias reg name = resolve_alias_loop (alias_of reg) {} name"

text \<open>
  The names the loop adds to \<^verbatim>\<open>seen\<close>, in the order it adds them: the same loop,
  recording each \<^verbatim>\<open>seen.add(cur)\<close>. Its length is the number of iterations.
\<close>

function resolve_alias_visits :: "(string \<times> string) list \<Rightarrow> string set \<Rightarrow> string \<Rightarrow> string list" where
  "resolve_alias_visits al seen cur =
     (case map_of al cur of
        None \<Rightarrow> []
      | Some nxt \<Rightarrow> if cur \<notin> seen then cur # resolve_alias_visits al (insert cur seen) nxt else [])"
  by pat_completeness auto
termination
proof (relation "measure (\<lambda>(al, seen, cur). card (dom (map_of al) - seen))")
  show "wf (measure (\<lambda>(al, seen, cur). card (dom (map_of al) - seen)))"
    by simp
next
  fix al :: "(string \<times> string) list" and seen :: "string set" and cur nxt :: string
  assume a: "map_of al cur = Some nxt" "cur \<notin> seen"
  have "dom (map_of al) - insert cur seen \<subset> dom (map_of al) - seen"
    using a by auto
  then have "card (dom (map_of al) - insert cur seen) < card (dom (map_of al) - seen)"
    by (intro psubset_card_mono) (simp_all add: finite_dom_map_of)
  then show "((al, insert cur seen, nxt), (al, seen, cur))
      \<in> measure (\<lambda>(al, seen, cur). card (dom (map_of al) - seen))"
    by simp
qed

declare resolve_alias_visits.simps [simp del]

text \<open>One alias pointer: \<open>x\<close> is declared an alias of \<open>y\<close>.\<close>

definition alias_step :: "(string \<times> string) list \<Rightarrow> (string \<times> string) set" where
  "alias_step al = {(x, y). map_of al x = Some y}"

text \<open>
  A list of names in which each name is declared an alias of the next: a stretch of an
  alias chain.
\<close>

fun alias_chain :: "(string \<times> string) list \<Rightarrow> string list \<Rightarrow> bool" where
  "alias_chain al [] = True"
| "alias_chain al [x] = True"
| "alias_chain al (x # y # ys) = (map_of al x = Some y \<and> alias_chain al (y # ys))"

subsection \<open>Loading the registry\<close>

text \<open>
  \<^verbatim>\<open>_parse_commands\<close>. One parameter element: the loop body of
  \<^verbatim>\<open>for p in cmd.findall("param")\<close>, \<open>None\<close> where it takes \<^verbatim>\<open>continue\<close>.
\<close>

definition parse_param :: "element \<Rightarrow> reg_param option" where
  "parse_param p =
     (case findtext_child ''name'' p of
        None \<Rightarrow> None
      | Some pname \<Rightarrow>
          if pname = [] then None
          else
            let p_text = norm_ws (flatten_text p) in
            Some \<lparr>p_type = norm_ws (remove_word pname p_text), p_name = pname,
                  p_group = el_get p ''group'', p_len = el_get p ''len''\<rparr>)"

text \<open>One command element: the loop body of \<^verbatim>\<open>for cmd in self.root.findall("./commands/command")\<close>.\<close>

definition parse_command :: "element \<Rightarrow> GLRegistry \<Rightarrow> GLRegistry" where
  "parse_command cmd reg =
     (case find_child ''proto'' cmd of
        None \<Rightarrow> reg
      | Some proto \<Rightarrow>
          (case findtext_child ''name'' proto of
             None \<Rightarrow> reg
           | Some name \<Rightarrow>
               if name = [] then reg
               else
                 let proto_text = norm_ws (flatten_text proto);
                     ret_type1 = norm_ws (remove_word name proto_text);
                     ret_type = norm_ws (remove_all ''GLAPIENTRY'' (remove_all ''APIENTRY'' ret_type1));
                     params = List.map_filter parse_param (findall_child ''param'' cmd);
                     alias = el_get cmd ''alias'';
                     reg1 = (if truthy alias
                             then reg\<lparr>alias_of := AList.update name (or_empty alias) (alias_of reg)\<rparr>
                             else reg)
                 in reg1\<lparr>commands :=
                      AList.update name \<lparr>c_ret = ret_type, c_params = params, c_alias = alias\<rparr>
                        (commands reg1)\<rparr>))"

definition parse_commands :: "element \<Rightarrow> GLRegistry \<Rightarrow> GLRegistry" where
  "parse_commands root reg =
     fold parse_command (concat (map (findall_child ''command'') (findall_child ''commands'' root))) reg"

text \<open>
  \<^verbatim>\<open>_parse_features\<close>. A version string as the tuple
  \<^verbatim>\<open>tuple(map(int, number.split(".")))\<close>, \<open>None\<close> where \<^verbatim>\<open>int\<close> raises; tuples of
  integers are compared as lists, in the lexicographic order.
\<close>

fun all_some :: "'a option list \<Rightarrow> 'a list option" where
  "all_some [] = Some []"
| "all_some (x # xs) =
     (case x of None \<Rightarrow> None
      | Some y \<Rightarrow> (case all_some xs of None \<Rightarrow> None | Some ys \<Rightarrow> Some (y # ys)))"

definition version_tuple :: "string \<Rightarrow> int list option" where
  "version_tuple number = all_some (map py_int (split_on CHR ''.'' number))"

text \<open>
  The innermost statement of \<^verbatim>\<open>_parse_features\<close>, for a command name \<open>nm\<close> required
  by a feature block with version \<open>number\<close>; the dictionary is
  \<^verbatim>\<open>self.introduced_version\<close>. An exception in the \<^verbatim>\<open>try\<close> block leaves the dictionary
  as it is.
\<close>

definition note_version :: "string \<Rightarrow> string \<Rightarrow> (string \<times> string) list \<Rightarrow> (string \<times> string) list" where
  "note_version number nm iv =
     (case map_of iv nm of
        None \<Rightarrow> AList.update nm number iv
      | Some cur \<Rightarrow>
          (case version_tuple number of
             None \<Rightarrow> iv
           | Some a \<Rightarrow>
               (case version_tuple cur of
                  None \<Rightarrow> iv
                | Some b \<Rightarrow> if a < b then AList.update nm number iv else iv)))"

text \<open>
  The names a feature or extension element requires, in document order:
  \<^verbatim>\<open>for req in feat.findall("./require"): for c in req.findall("./command"): nm = c.get("name")\<close>,
  without the names that are absent or empty.
\<close>

definition required_commands :: "element \<Rightarrow> string list" where
  "required_commands e =
     concat (map (\<lambda>req. List.map_filter
                    (\<lambda>c. if truthy (el_get c ''name'') then el_get c ''name'' else None)
                    (findall_child ''command'' req))
              (findall_child ''require'' e))"

text \<open>One feature element: the loop body of \<^verbatim>\<open>for feat in self.root.findall("./feature")\<close>.\<close>

definition parse_feature :: "element \<Rightarrow> (string \<times> string) list \<Rightarrow> (string \<times> string) list" where
  "parse_feature feat iv =
     (if el_get feat ''api'' \<noteq> Some ''gl'' then iv
      else
        let number = or_empty (py_or (el_get feat ''number'') (Some [])) in
        if number = [] then iv
        else fold (note_version number) (required_commands feat) iv)"

definition parse_features :: "element \<Rightarrow> GLRegistry \<Rightarrow> GLRegistry" where
  "parse_features root reg =
     reg\<lparr>introduced_version := fold parse_feature (findall_child ''feature'' root) (introduced_version reg)\<rparr>"

text \<open>
  \<^verbatim>\<open>_parse_extensions\<close>;
  \<^verbatim>\<open>self.extensions_for_cmd.setdefault(nm, set()).add(ext_name)\<close> is \<open>note_extension\<close>.
\<close>

definition note_extension :: "string \<Rightarrow> string \<Rightarrow> (string \<times> string set) list \<Rightarrow> (string \<times> string set) list" where
  "note_extension ext_name nm ex =
     AList.update nm (insert ext_name (case map_of ex nm of None \<Rightarrow> {} | Some s \<Rightarrow> s)) ex"

definition parse_extension :: "element \<Rightarrow> (string \<times> string set) list \<Rightarrow> (string \<times> string set) list" where
  "parse_extension ext ex =
     (case el_get ext ''name'' of
        None \<Rightarrow> ex
      | Some ext_name \<Rightarrow>
          if ext_name = [] then ex
          else fold (note_extension ext_name) (required_commands ext) ex)"

definition parse_extensions :: "element \<Rightarrow> GLRegistry \<Rightarrow> GLRegistry" where
  "parse_extensions root reg =
     reg\<lparr>extensions_for_cmd :=
       fold parse_extension
         (concat (map (findall_child ''extension'') (findall_child ''extensions'' root)))
         (extensions_for_cmd reg)\<rparr>"

text \<open>The constructor, on the root element that \<^verbatim>\<open>ET.parse(xml_path).getroot()\<close> gives.\<close>

definition GLRegistry_init :: "element \<Rightarrow> GLRegistry" where
  "GLRegistry_init root =
     parse_extensions root (parse_features root (parse_commands root
       \<lparr>commands = [], alias_of = [], introduced_version = [], extensions_for_cmd = []\<rparr>))"

subsection \<open>Queries\<close>

text \<open>\<^verbatim>\<open>signature\<close>, \<^verbatim>\<open>signature_canonical\<close> and \<^verbatim>\<open>version_or_exts\<close>.\<close>

definition signature :: "GLRegistry \<Rightarrow> string \<Rightarrow> (string \<times> reg_param list) option" where
  "signature reg name =
     (case map_of (commands reg) name of
        None \<Rightarrow> None
      | Some info \<Rightarrow> Some (c_ret info, c_params info))"

definition signature_canonical :: "GLRegistry \<Rightarrow> string \<Rightarrow> (string \<times> reg_param list \<times> string) option" where
  "signature_canonical reg name =
     (let canon = resolve_alias reg name in
      case signature reg canon of
        None \<Rightarrow> None
      | Some (ret, params) \<Rightarrow> Some (ret, params, canon))"

definition extensions_of :: "GLRegistry \<Rightarrow> string \<Rightarrow> string set" where
  "extensions_of reg name = (case map_of (extensions_for_cmd reg) name of None \<Rightarrow> {} | Some s \<Rightarrow> s)"

definition version_or_exts :: "GLRegistry \<Rightarrow> string \<Rightarrow> string option \<times> string list" where
  "version_or_exts reg name =
     (let v = map_of (introduced_version reg) name;
          v = (if v = None then map_of (introduced_version reg) (resolve_alias reg name) else v);
          exts = sorted_list_of_set
                   (extensions_of reg name \<union> extensions_of reg (resolve_alias reg name))
      in (v, exts))"

subsection \<open>Notions for the statements about the registry\<close>

text \<open>
  The pairs of version number and command name that \<^verbatim>\<open>_parse_features\<close> handles for
  one feature element, in the order of its loops, and the version numbers it handles
  for one command name over the whole document: those of the feature blocks of the API
  \<^verbatim>\<open>gl\<close> that require the command, in document order.
\<close>

definition feature_pairs :: "element \<Rightarrow> (string \<times> string) list" where
  "feature_pairs feat =
     (if el_get feat ''api'' \<noteq> Some ''gl'' then []
      else
        let number = or_empty (py_or (el_get feat ''number'') (Some [])) in
        if number = [] then [] else map (Pair number) (required_commands feat))"

definition feature_versions :: "element \<Rightarrow> string \<Rightarrow> string list" where
  "feature_versions root nm =
     map fst (filter (\<lambda>p. snd p = nm) (concat (map feature_pairs (findall_child ''feature'' root))))"

text \<open>
  The version string kept after the version strings \<open>vs\<close> have been handled in turn,
  when \<open>cur\<close> is the one kept before.
\<close>

fun retain :: "string \<Rightarrow> string list \<Rightarrow> string" where
  "retain cur [] = cur"
| "retain cur (v # vs) =
     retain (case version_tuple v of
               None \<Rightarrow> cur
             | Some a \<Rightarrow> (case version_tuple cur of None \<Rightarrow> cur | Some b \<Rightarrow> if a < b then v else cur)) vs"

section \<open>Reference page store\<close>

text \<open>
  A \<^verbatim>\<open>RefPages\<close> object: the collection tag, and for each function name the root that
  \<^verbatim>\<open>load\<close> returns, \<open>None\<close> where there is no file or no parse of it succeeds. The cache
  makes \<^verbatim>\<open>load\<close> return the same root for the same name during a run.
\<close>

record RefPages =
  folder_tag :: string
  documents :: "string \<Rightarrow> element option"

definition load :: "RefPages \<Rightarrow> string \<Rightarrow> element option" where
  "load refs func = documents refs func"

text \<open>\<^verbatim>\<open>brief\<close>.\<close>

definition brief :: "RefPages \<Rightarrow> string \<Rightarrow> string option" where
  "brief refs func =
     (case load refs func of
        None \<Rightarrow> None
      | Some root \<Rightarrow>
          (let txt = findtext_desc (db ''refpurpose'') root;
               txt = (if \<not> truthy txt then findtext_desc ''refpurpose'' root else txt)
           in if truthy txt then Some (norm_ws (or_empty txt)) else None))"

fun first_some :: "('a \<Rightarrow> 'b option) \<Rightarrow> 'a list \<Rightarrow> 'b option" where
  "first_some f [] = None"
| "first_some f (x # xs) = (case f x of None \<Rightarrow> first_some f xs | Some y \<Rightarrow> Some y)"

text \<open>
  \<^verbatim>\<open>c_signature\<close>. A parameter definition: the loop body of
  \<^verbatim>\<open>for p in (proto.findall("db:paramdef", ...) + proto.findall("paramdef"))\<close>, \<open>None\<close>
  where it takes \<^verbatim>\<open>continue\<close>.
\<close>

definition paramdef_pair :: "element \<Rightarrow> (string \<times> string) option" where
  "paramdef_pair p =
     (let pname = strip (or_empty (py_or (py_or (findtext_child (db ''parameter'') p)
                                               (findtext_child ''parameter'' p)) (Some [])))
      in if pname = [] then None
         else
           let p_text = norm_ws (flatten_text p) in
           Some (norm_ws (remove_word pname p_text), pname))"

text \<open>
  One prototype: the loop body of \<^verbatim>\<open>for proto in protos\<close>, \<open>None\<close> where it takes
  \<^verbatim>\<open>continue\<close> and the value returned otherwise.
\<close>

definition proto_signature :: "string \<Rightarrow> element \<Rightarrow> (string \<times> (string \<times> string) list) option" where
  "proto_signature func proto =
     (case (case find_child (db ''funcdef'') proto of
              None \<Rightarrow> find_child ''funcdef'' proto
            | Some f \<Rightarrow> Some f) of
        None \<Rightarrow> None
      | Some fdef \<Rightarrow>
          (let fname = strip (or_empty (py_or (py_or (findtext_child (db ''function'') fdef)
                                                    (findtext_child ''function'' fdef)) (Some [])))
           in if fname \<noteq> func then None
              else
                let proto_text = norm_ws (flatten_text fdef);
                    ret = norm_ws (remove_word fname proto_text);
                    params = List.map_filter paramdef_pair
                               (findall_child (db ''paramdef'') proto @ findall_child ''paramdef'' proto)
                in Some (ret, params)))"

definition c_signature :: "RefPages \<Rightarrow> string \<Rightarrow> (string \<times> (string \<times> string) list) option" where
  "c_signature refs func =
     (case load refs func of
        None \<Rightarrow> None
      | Some root \<Rightarrow>
          first_some (proto_signature func)
            (findall_desc (db ''funcprototype'') root @ findall_desc ''funcprototype'' root))"

text \<open>
  \<^verbatim>\<open>param_descriptions\<close>. The section: the first \<^verbatim>\<open>refsect1\<close> element whose
  \<^verbatim>\<open>xml:id\<close> is \<^verbatim>\<open>parameters\<close> or whose title, stripped and in lower case, is
  \<^verbatim>\<open>parameters\<close>.
\<close>

definition is_parameters_section :: "element \<Rightarrow> bool" where
  "is_parameters_section node \<longleftrightarrow>
     (let title = lower (strip (or_empty (py_or (py_or (findtext_child (db ''title'') node)
                                                      (findtext_child ''title'' node)) (Some []))))
      in el_get node ''{http://www.w3.org/XML/1998/namespace}id'' = Some ''parameters''
         \<or> title = ''parameters'')"

definition parameters_section :: "element \<Rightarrow> element option" where
  "parameters_section root =
     List.find is_parameters_section
       (findall_desc (db ''refsect1'') root @ findall_desc ''refsect1'' root)"

text \<open>
  The name read from a term of an entry, the loop body of
  \<^verbatim>\<open>for t in e.findall("./db:term", ...) + e.findall("./term")\<close>:
  \<^verbatim>\<open>t.findtext("db:parameter", ...) or t.findtext("parameter")\<close>, stripped; \<open>None\<close>
  where nothing is appended to \<^verbatim>\<open>terms\<close>. \<^verbatim>\<open>findtext\<close> reads the first child with
  the tag, and of it the text before its first child.
\<close>

definition term_parameter :: "element \<Rightarrow> string option" where
  "term_parameter t =
     (let pname = py_or (findtext_child (db ''parameter'') t) (findtext_child ''parameter'' t)
      in if truthy pname then Some (strip (or_empty pname)) else None)"

text \<open>
  An entry of a description list: its terms, the names read from them (the list
  \<^verbatim>\<open>terms\<close>) and the text of its description (\<^verbatim>\<open>desc\<close>).
\<close>

definition entry_term_elements :: "element \<Rightarrow> element list" where
  "entry_term_elements e = findall_child (db ''term'') e @ findall_child ''term'' e"

definition entry_terms :: "element \<Rightarrow> string list" where
  "entry_terms e = List.map_filter term_parameter (entry_term_elements e)"

definition entry_desc :: "element \<Rightarrow> string" where
  "entry_desc e =
     (case (case find_child (db ''listitem'') e of
              None \<Rightarrow> find_child ''listitem'' e
            | Some li \<Rightarrow> Some li) of
        None \<Rightarrow> []
      | Some li \<Rightarrow> norm_ws (flatten_text li))"

text \<open>The entries in the order the two nested loops visit them.\<close>

definition section_entries :: "element \<Rightarrow> element list" where
  "section_entries sect =
     concat (map (\<lambda>v. findall_child (db ''varlistentry'') v @ findall_child ''varlistentry'' v)
               (findall_desc (db ''variablelist'') sect @ findall_desc ''variablelist'' sect))"

text \<open>The loop body of \<^verbatim>\<open>for e in entries\<close>, on the dictionary \<^verbatim>\<open>out\<close>.\<close>

definition note_entry :: "element \<Rightarrow> (string \<times> string) list \<Rightarrow> (string \<times> string) list" where
  "note_entry e out =
     (let terms = entry_terms e in
      if terms = [] then out
      else
        let desc = entry_desc e in
        fold (\<lambda>nm out. if desc \<noteq> [] then AList.update nm desc out else out) terms out)"

definition param_descriptions :: "RefPages \<Rightarrow> string \<Rightarrow> (string \<times> string) list" where
  "param_descriptions refs func =
     (case load refs func of
        None \<Rightarrow> []
      | Some root \<Rightarrow>
          (case parameters_section root of
             None \<Rightarrow> []
           | Some sect \<Rightarrow> fold note_entry (section_entries sect) []))"

section \<open>Docblock synthesizer\<close>

text \<open>The backslash of the Doxygen commands.\<close>

abbreviation bsl :: string where
  "bsl \<equiv> [CHR 0x5C]"

definition make_refpage_url :: "string \<Rightarrow> string \<Rightarrow> string" where
  "make_refpage_url tag func =
     ''https://registry.khronos.org/OpenGL-Refpages/'' @ tag @ ''/html/'' @ func @ ''.xhtml''"

definition make_param_line_with_desc :: "string \<Rightarrow> string \<Rightarrow> string option \<Rightarrow> string \<Rightarrow> string" where
  "make_param_line_with_desc pname ptype desc trailer =
     (if truthy desc
      then '' * '' @ bsl @ ''param '' @ pname @ '' ('' @ ptype @ '') - '' @ or_empty desc @ trailer
      else '' * '' @ bsl @ ''param '' @ pname @ '' ('' @ ptype @ '')'' @ trailer)"

definition make_param_trailer_from_reg :: "reg_param option \<Rightarrow> string" where
  "make_param_trailer_from_reg reg_p =
     (case reg_p of
        None \<Rightarrow> []
      | Some rp \<Rightarrow>
          (let extras = (if truthy (p_group rp) then [''group: '' @ or_empty (p_group rp)] else [])
                      @ (if truthy (p_len rp) then [''len: '' @ or_empty (p_len rp)] else [])
           in if extras \<noteq> [] then ''  ['' @ join '' | '' extras @ '']'' else []))"

text \<open>
  The loop \<^verbatim>\<open>for ptype, pname in params_list\<close> of \<^verbatim>\<open>build_doc\<close>, with the set
  \<^verbatim>\<open>seen_p\<close>; the value is the list of the lines it appends.
\<close>

fun param_lines ::
  "(string \<times> reg_param) list \<Rightarrow> (string \<times> string) list \<Rightarrow> string set \<Rightarrow> (string \<times> string) list
     \<Rightarrow> string list" where
  "param_lines reg_params_by_name pdesc seen_p [] = []"
| "param_lines reg_params_by_name pdesc seen_p ((ptype, pname) # ps) =
     (if pname \<in> seen_p then param_lines reg_params_by_name pdesc seen_p ps
      else
        (let trailer = make_param_trailer_from_reg (map_of reg_params_by_name pname) in
         make_param_line_with_desc pname ptype (map_of pdesc pname) trailer
           # param_lines reg_params_by_name pdesc (insert pname seen_p) ps))"

text \<open>
  The signature \<^verbatim>\<open>build_doc\<close> works from, its variables \<^verbatim>\<open>ret\<close> and
  \<^verbatim>\<open>params_list\<close>: that of the reference page of the literal name, else that of the
  reference page of the canonical name, else that of the registry for the canonical
  name; \<open>None\<close> where \<^verbatim>\<open>build_doc\<close> returns \<^verbatim>\<open>None\<close>.
\<close>

definition doc_signature :: "string \<Rightarrow> GLRegistry \<Rightarrow> RefPages \<Rightarrow> (string \<times> (string \<times> string) list) option" where
  "doc_signature gl_name reg refs =
     (let canon = resolve_alias reg gl_name;
          sig1 = c_signature refs gl_name;
          sig = (if sig1 = None \<and> canon \<noteq> gl_name then c_signature refs canon else sig1);
          reg_sig = signature_canonical reg gl_name
      in case sig of
           None \<Rightarrow>
             (case reg_sig of
                None \<Rightarrow> None
              | Some (ret_r, params_r, canon_r) \<Rightarrow>
                  Some (ret_r, map (\<lambda>p. (p_type p, p_name p)) params_r))
         | Some s \<Rightarrow> Some s)"

text \<open>
  \<^verbatim>\<open>build_doc\<close>, up to the list \<^verbatim>\<open>lines\<close>: \<open>None\<close> is the early \<^verbatim>\<open>return None\<close>.
\<close>

definition build_doc_lines :: "string \<Rightarrow> GLRegistry \<Rightarrow> RefPages \<Rightarrow> string list option" where
  "build_doc_lines gl_name reg refs =
     (let canon = resolve_alias reg gl_name;
          brief1 = brief refs gl_name;
          brief2 = (if brief1 = None \<and> canon \<noteq> gl_name then brief refs canon else brief1);
          pdesc1 = param_descriptions refs gl_name;
          pdesc = (if pdesc1 = [] \<and> canon \<noteq> gl_name then param_descriptions refs canon else pdesc1);
          reg_sig = signature_canonical reg gl_name;
          reg_params_by_name =
            (case reg_sig of
               None \<Rightarrow> []
             | Some (ret_r, params_r, canon_r) \<Rightarrow>
                 fold (\<lambda>rp d. AList.update (p_name rp) rp d) params_r [])
      in
        case doc_signature gl_name reg refs of
          None \<Rightarrow> None
        | Some (ret, params_list) \<Rightarrow>
            (let version = fst (version_or_exts reg gl_name);
                 exts = snd (version_or_exts reg gl_name);
                 note_parts =
                   (if truthy version then [''Introduced in OpenGL '' @ or_empty version] else [])
                   @ (if exts \<noteq> [] then [''Introduced by extension(s): '' @ join '', '' exts] else [])
             in Some
                  ([''/**'']
                   @ (if truthy brief2
                      then (if \<not> endswith (or_empty brief2) ''.''
                            then ['' * '' @ bsl @ ''brief '' @ or_empty brief2 @ ''.'']
                            else ['' * '' @ bsl @ ''brief '' @ or_empty brief2])
                      else [])
                   @ param_lines reg_params_by_name pdesc {} params_list
                   @ (if ret \<noteq> [] \<and> strip ret \<noteq> ''void''
                      then ['' * '' @ bsl @ ''return ('' @ ret @ '')''] else [])
                   @ ['' * '' @ bsl @ ''see '' @ make_refpage_url (folder_tag refs) gl_name]
                   @ (if note_parts \<noteq> [] then ['' * '' @ bsl @ ''note '' @ join '' | '' note_parts] else [])
                   @ ['' */''])))"

text \<open>\<^verbatim>\<open>build_doc\<close>: the lines joined by line feeds.\<close>

definition build_doc :: "string \<Rightarrow> GLRegistry \<Rightarrow> RefPages \<Rightarrow> string option" where
  "build_doc gl_name reg refs = map_option (join [CHR 0x0A]) (build_doc_lines gl_name reg refs)"

text \<open>A return line of a docblock: a line that starts with \<^verbatim>\<open> * \return\<close>.\<close>

definition is_return_line :: "string \<Rightarrow> bool" where
  "is_return_line l \<longleftrightarrow> startswith l ('' * '' @ bsl @ ''return'')"

subsection \<open>The docblock as the specification lays it out\<close>

text \<open>
  The synthesizer is specified as a merge of lookups tried in a fixed order that stops
  at the first success, followed by a fixed layout of lines. The definitions of this
  subsection follow that description, to be compared with \<^verbatim>\<open>build_doc\<close> as embedded
  above. The first value available from a list of lookups:
\<close>

fun first_available :: "'a option list \<Rightarrow> 'a option" where
  "first_available [] = None"
| "first_available (None # xs) = first_available xs"
| "first_available (Some x # xs) = Some x"

text \<open>
  The sources of a signature, in the order of preference: the reference page of the
  literal name, the reference page of the canonical name, and the registry command of
  the canonical name, of which the pairs of type and name are taken.
\<close>

definition signature_sources ::
  "string \<Rightarrow> GLRegistry \<Rightarrow> RefPages \<Rightarrow> (string \<times> (string \<times> string) list) option list" where
  "signature_sources gl_name reg refs =
     [c_signature refs gl_name,
      c_signature refs (resolve_alias reg gl_name),
      map_option (\<lambda>(ret, ps). (ret, map (\<lambda>p. (p_type p, p_name p)) ps))
        (signature reg (resolve_alias reg gl_name))]"

text \<open>The brief line: none without a brief text, and a period is added where the text lacks one.\<close>

definition brief_line :: "string option \<Rightarrow> string list" where
  "brief_line b =
     (case b of
        None \<Rightarrow> []
      | Some t \<Rightarrow>
          if t = [] then []
          else ['' * '' @ bsl @ ''brief '' @ t @ (if last t = CHR ''.'' then [] else ''.'')])"

text \<open>
  The parameters that get a line: of the parameters with the same name, the first. The
  parameter descriptions: those of the page of the literal name, and those of the page
  of the canonical name where the former has none.
\<close>

definition first_occurrences :: "(string \<times> string) list \<Rightarrow> (string \<times> string) list" where
  "first_occurrences ps =
     map (\<lambda>i. ps ! i) (filter (\<lambda>i. snd (ps ! i) \<notin> snd ` set (take i ps)) [0..<length ps])"

definition doc_descriptions :: "string \<Rightarrow> GLRegistry \<Rightarrow> RefPages \<Rightarrow> (string \<times> string) list" where
  "doc_descriptions gl_name reg refs =
     (if param_descriptions refs gl_name \<noteq> [] then param_descriptions refs gl_name
      else param_descriptions refs (resolve_alias reg gl_name))"

text \<open>
  The registry's parameter with a given name, of the canonical command: where several
  have the name, the last. Its trailer holds the group and the length, as far as they
  are present.
\<close>

definition registry_param :: "string \<Rightarrow> GLRegistry \<Rightarrow> string \<Rightarrow> reg_param option" where
  "registry_param gl_name reg pname =
     (case signature reg (resolve_alias reg gl_name) of
        None \<Rightarrow> None
      | Some (ret, ps) \<Rightarrow> List.find (\<lambda>rp. p_name rp = pname) (rev ps))"

definition trailer_text :: "reg_param option \<Rightarrow> string" where
  "trailer_text reg_p =
     (case reg_p of
        None \<Rightarrow> []
      | Some rp \<Rightarrow>
          (let g = or_empty (p_group rp); l = or_empty (p_len rp) in
           if g \<noteq> [] \<and> l \<noteq> [] then ''  [group: '' @ g @ '' | len: '' @ l @ '']''
           else if g \<noteq> [] then ''  [group: '' @ g @ '']''
           else if l \<noteq> [] then ''  [len: '' @ l @ '']''
           else []))"

definition param_line :: "string \<Rightarrow> GLRegistry \<Rightarrow> RefPages \<Rightarrow> string \<times> string \<Rightarrow> string" where
  "param_line gl_name reg refs p =
     '' * '' @ bsl @ ''param '' @ snd p @ '' ('' @ fst p @ '')''
       @ (case map_of (doc_descriptions gl_name reg refs) (snd p) of
            None \<Rightarrow> []
          | Some d \<Rightarrow> if d = [] then [] else '' - '' @ d)
       @ trailer_text (registry_param gl_name reg (snd p))"

text \<open>The return line, the reference line and the provenance note.\<close>

definition return_line :: "string \<Rightarrow> string list" where
  "return_line ret =
     (if ret = [] \<or> strip ret = ''void'' then [] else ['' * '' @ bsl @ ''return ('' @ ret @ '')''])"

definition see_line :: "string \<Rightarrow> RefPages \<Rightarrow> string" where
  "see_line gl_name refs =
     '' * '' @ bsl @ ''see https://registry.khronos.org/OpenGL-Refpages/'' @ folder_tag refs
       @ ''/html/'' @ gl_name @ ''.xhtml''"

definition provenance_note :: "string option \<Rightarrow> string list \<Rightarrow> string list" where
  "provenance_note version exts =
     (let v = or_empty version in
      if v \<noteq> [] \<and> exts \<noteq> []
        then ['' * '' @ bsl @ ''note Introduced in OpenGL '' @ v
                @ '' | Introduced by extension(s): '' @ join '', '' exts]
      else if v \<noteq> [] then ['' * '' @ bsl @ ''note Introduced in OpenGL '' @ v]
      else if exts \<noteq> [] then ['' * '' @ bsl @ ''note Introduced by extension(s): '' @ join '', '' exts]
      else [])"

text \<open>The lines of the docblock for a signature, in their fixed order.\<close>

definition docblock_layout ::
  "string \<Rightarrow> GLRegistry \<Rightarrow> RefPages \<Rightarrow> string \<times> (string \<times> string) list \<Rightarrow> string list" where
  "docblock_layout gl_name reg refs sig =
     [''/**'']
     @ brief_line (first_available [brief refs gl_name, brief refs (resolve_alias reg gl_name)])
     @ map (param_line gl_name reg refs) (first_occurrences (snd sig))
     @ return_line (fst sig)
     @ [see_line gl_name refs]
     @ provenance_note
         (first_available [map_of (introduced_version reg) gl_name,
                           map_of (introduced_version reg) (resolve_alias reg gl_name)])
         (sorted_list_of_set (extensions_of reg gl_name \<union> extensions_of reg (resolve_alias reg gl_name)))
     @ ['' */'']"

section \<open>In-place rewriter\<close>

text \<open>
  \<^verbatim>\<open>DEFINE_RE\<close> is the pattern
  \<^verbatim>\<open>^\s*#\s*define\s+(gl[A-Za-z0-9_]+)\s+(glad_gl[A-Za-z0-9_]+)\s*$\<close>, applied with
  \<^verbatim>\<open>match\<close>. White space, \<^verbatim>\<open>#\<close> and the characters of an identifier exclude one
  another, so a line matches in one way at most and the pattern is read from left to
  right: each run of white space and each identifier is as long as it can be. The value
  is the pair of the two groups.
\<close>

definition is_ident_char :: "char \<Rightarrow> bool" where
  "is_ident_char c \<longleftrightarrow>
     (CHR ''A'' \<le> c \<and> c \<le> CHR ''Z'') \<or> (CHR ''a'' \<le> c \<and> c \<le> CHR ''z'') \<or>
     (CHR ''0'' \<le> c \<and> c \<le> CHR ''9'') \<or> c = CHR ''_''"

definition starts_space :: "string \<Rightarrow> bool" where
  "starts_space s \<longleftrightarrow> (case s of [] \<Rightarrow> False | c # _ \<Rightarrow> is_space c)"

definition DEFINE_RE_match :: "string \<Rightarrow> (string \<times> string) option" where
  "DEFINE_RE_match line =
     (let s1 = dropWhile is_space line in
      if \<not> startswith s1 ''#'' then None else
      let s2 = dropWhile is_space (drop 1 s1) in
      if \<not> startswith s2 ''define'' then None else
      let s3 = drop 6 s2 in
      if \<not> starts_space s3 then None else
      let s4 = dropWhile is_space s3;
          g1 = takeWhile is_ident_char s4;
          s5 = dropWhile is_ident_char s4 in
      if \<not> (startswith g1 ''gl'' \<and> 2 < length g1) then None else
      if \<not> starts_space s5 then None else
      let s6 = dropWhile is_space s5;
          g2 = takeWhile is_ident_char s6;
          s7 = dropWhile is_ident_char s6 in
      if \<not> (startswith g2 ''glad_gl'' \<and> 7 < length g2) then None else
      if dropWhile is_space s7 \<noteq> [] then None else Some (g1, g2))"

text \<open>
  The language of the pattern, stated on its own: white space, \<^verbatim>\<open>#\<close>, white space,
  \<^verbatim>\<open>define\<close>, white space (at least one character), the first identifier, white
  space (at least one character), the second identifier, white space.
\<close>

definition define_line_shape :: "string \<Rightarrow> string \<Rightarrow> string \<Rightarrow> bool" where
  "define_line_shape l g1 g2 \<longleftrightarrow>
     (\<exists>w0 w1 w2 w3 w4 x y.
        l = w0 @ ''#'' @ w1 @ ''define'' @ w2 @ g1 @ w3 @ g2 @ w4 \<and>
        g1 = ''gl'' @ x \<and> g2 = ''glad_gl'' @ y \<and> x \<noteq> [] \<and> y \<noteq> [] \<and> w2 \<noteq> [] \<and> w3 \<noteq> [] \<and>
        list_all is_space (w0 @ w1 @ w2 @ w3 @ w4) \<and> list_all is_ident_char (x @ y))"

datatype py_error = IndexError

text \<open>
  \<^verbatim>\<open>find_docblock_above\<close>. The first loop,
  \<^verbatim>\<open>while j >= 0 and lines[j].strip() == "": j -= 1\<close>, as a function of \<^verbatim>\<open>j\<close>.
\<close>

function skip_blank_up :: "string list \<Rightarrow> int \<Rightarrow> int" where
  "skip_blank_up lines j =
     (if 0 \<le> j \<and> strip (lines ! nat j) = [] then skip_blank_up lines (j - 1) else j)"
  by pat_completeness auto
termination
  by (relation "measure (\<lambda>(lines, j). nat (j + 1))") auto

declare skip_blank_up.simps [simp del]

text \<open>
  The second loop, \<^verbatim>\<open>while k >= 0: ...\<close>, as a function of \<^verbatim>\<open>k\<close>: it returns from
  inside with the range, and \<^verbatim>\<open>break\<close> or running out of lines leads to the final
  \<^verbatim>\<open>return None\<close>.
\<close>

function scan_block_up :: "string list \<Rightarrow> int \<Rightarrow> int \<Rightarrow> (int \<times> int) option" where
  "scan_block_up lines end_idx k =
     (if 0 \<le> k then
        if occurs_in ''/**'' (lines ! nat k) then Some (k, end_idx)
        else if strip (lines ! nat k) = [] then scan_block_up lines end_idx (k - 1)
        else if occurs_in ''*/'' (lines ! nat k) \<or> startswith (lstrip (lines ! nat k)) ''*''
                \<or> startswith (lstrip (lines ! nat k)) ''/*''
          then scan_block_up lines end_idx (k - 1)
        else None
      else None)"
  by pat_completeness auto
termination
  by (relation "measure (\<lambda>(lines, end_idx, k). nat (k + 1))") auto

declare scan_block_up.simps [simp del]

text \<open>
  The function itself. With \<^verbatim>\<open>idx_define\<close> beyond the length of \<^verbatim>\<open>lines\<close> the
  first \<^verbatim>\<open>lines[j]\<close> raises IndexError; with \<^verbatim>\<open>idx_define\<close> at most \<open>0\<close> the first loop
  is not entered and the value is \<^verbatim>\<open>None\<close>.
\<close>

definition find_docblock_above :: "string list \<Rightarrow> int \<Rightarrow> py_error + (int \<times> int) option" where
  "find_docblock_above lines idx_define =
     (if int (length lines) < idx_define then Inl IndexError
      else
        let j = skip_blank_up lines (idx_define - 1) in
        if j < 0 then Inr None
        else if \<not> occurs_in ''*/'' (lines ! nat j) then
          (if startswith (lstrip (lines ! nat j)) ''/**'' \<and> occurs_in ''*/'' (lines ! nat j)
           then Inr (Some (j, j)) else Inr None)
        else Inr (scan_block_up lines j j))"

text \<open>
  \<^verbatim>\<open>process\<close>, first pass: \<^verbatim>\<open>for i, line in enumerate(src_lines)\<close>, with the set
  \<^verbatim>\<open>skip\<close> as accumulator.
\<close>

function prescan :: "string list \<Rightarrow> nat \<Rightarrow> int set \<Rightarrow> py_error + int set" where
  "prescan src_lines i skip =
     (if i < length src_lines then
        if DEFINE_RE_match (src_lines ! i) \<noteq> None then
          (case find_docblock_above src_lines (int i) of
             Inl e \<Rightarrow> Inl e
           | Inr None \<Rightarrow> prescan src_lines (Suc i) skip
           | Inr (Some (a, b)) \<Rightarrow> prescan src_lines (Suc i) (skip \<union> {a..b}))
        else prescan src_lines (Suc i) skip
      else Inr skip)"
  by pat_completeness auto
termination
  by (relation "measure (\<lambda>(src_lines, i, skip). length src_lines - i)") auto

declare prescan.simps [simp del]

text \<open>
  Second pass: \<^verbatim>\<open>while i < n: ...\<close>, with \<^verbatim>\<open>out_lines\<close> as accumulator. The argument
  \<open>build\<close> is the synthesizer applied to the registry and the reference pages,
  \<^verbatim>\<open>lambda gl_name: build_doc(gl_name, reg, refs)\<close>; a docblock goes into
  \<^verbatim>\<open>out_lines\<close> as one element, whatever the number of its lines.
\<close>

function main_pass ::
  "(string \<Rightarrow> string option) \<Rightarrow> string list \<Rightarrow> int set \<Rightarrow> nat \<Rightarrow> string list \<Rightarrow> string list" where
  "main_pass build src_lines skip i out_lines =
     (if i < length src_lines then
        if int i \<in> skip then main_pass build src_lines skip (Suc i) out_lines
        else
          (case DEFINE_RE_match (src_lines ! i) of
             Some (gl_name, internal) \<Rightarrow>
               (case build gl_name of
                  Some doc \<Rightarrow>
                    if doc \<noteq> [] then
                      main_pass build src_lines skip (Suc i) (out_lines @ [doc] @ [src_lines ! i])
                    else main_pass build src_lines skip (Suc i) (out_lines @ [src_lines ! i])
                | None \<Rightarrow> main_pass build src_lines skip (Suc i) (out_lines @ [src_lines ! i]))
           | None \<Rightarrow> main_pass build src_lines skip (Suc i) (out_lines @ [src_lines ! i]))
      else out_lines)"
  by pat_completeness auto
termination
  by (relation "measure (\<lambda>(build, src_lines, skip, i, out_lines). length src_lines - i)") auto

declare main_pass.simps [simp del]

definition process_lines :: "(string \<Rightarrow> string option) \<Rightarrow> string list \<Rightarrow> py_error + string list" where
  "process_lines build src_lines =
     (case prescan src_lines 0 {} of
        Inl e \<Rightarrow> Inl e
      | Inr skip \<Rightarrow> Inr (main_pass build src_lines skip 0 []))"

text \<open>
  The whole of \<^verbatim>\<open>process\<close> on the text of the input file: the lines are those of
  \<^verbatim>\<open>splitlines\<close>, and the text written is \<^verbatim>\<open>"\n".join(out_lines) + "\n"\<close>.
\<close>

definition process_text :: "(string \<Rightarrow> string option) \<Rightarrow> string \<Rightarrow> py_error + string" where
  "process_text build input =
     (case process_lines build (splitlines input) of
        Inl e \<Rightarrow> Inl e
      | Inr out_lines \<Rightarrow> Inr (join [CHR 0x0A] out_lines @ [CHR 0x0A]))"

text \<open>
  \<^verbatim>\<open>process\<close> with its registry and reference pages, from the text of the input file
  to the text of the output file.
\<close>

definition process :: "GLRegistry \<Rightarrow> RefPages \<Rightarrow> string \<Rightarrow> py_error + string" where
  "process reg refs input = process_text (\<lambda>gl_name. build_doc gl_name reg refs) input"

subsection \<open>Notions for the statements about the rewriter\<close>

text \<open>
  A line that the upward scan of \<^verbatim>\<open>find_docblock_above\<close> steps over: blank, or with
  \<^verbatim>\<open>*/\<close> in it, or starting, after white space, with \<^verbatim>\<open>*\<close> or \<^verbatim>\<open>/*\<close>.
\<close>

definition comment_body :: "string \<Rightarrow> bool" where
  "comment_body l \<longleftrightarrow>
     strip l = [] \<or> occurs_in ''*/'' l \<or> startswith (lstrip l) ''*'' \<or> startswith (lstrip l) ''/*''"

text \<open>
  The lines that the first pass of \<^verbatim>\<open>process\<close> marks: the ranges that
  \<^verbatim>\<open>find_docblock_above\<close> returns for the lines matching \<^verbatim>\<open>DEFINE_RE\<close>.
\<close>

definition marked_lines :: "string list \<Rightarrow> int set" where
  "marked_lines lines =
     {t. \<exists>i a b. i < length lines \<and> DEFINE_RE_match (lines ! i) \<noteq> None \<and>
          find_docblock_above lines (int i) = Inr (Some (a, b)) \<and> a \<le> t \<and> t \<le> b}"

text \<open>
  The range \<open>a..b\<close> is a block right above line \<open>i\<close>: only blank lines lie between
  line \<open>b\<close> and line \<open>i\<close>, line \<open>b\<close> has \<^verbatim>\<open>*/\<close> in it, line \<open>a\<close> is the nearest line
  at or above \<open>b\<close> with \<^verbatim>\<open>/**\<close> in it, and the lines after \<open>a\<close> up to \<open>b\<close> are lines the
  scan steps over.
\<close>

definition block_above :: "string list \<Rightarrow> int \<Rightarrow> int \<Rightarrow> int \<Rightarrow> bool" where
  "block_above lines i a b \<longleftrightarrow>
     0 \<le> a \<and> a \<le> b \<and> b < i \<and>
     (\<forall>t. b < t \<and> t < i \<longrightarrow> strip (lines ! nat t) = []) \<and>
     occurs_in ''*/'' (lines ! nat b) \<and> occurs_in ''/**'' (lines ! nat a) \<and>
     (\<forall>t. a < t \<and> t \<le> b \<longrightarrow> \<not> occurs_in ''/**'' (lines ! nat t) \<and> comment_body (lines ! nat t))"

text \<open>
  What the second pass appends for a line it does not drop: the line itself, after the
  docblock when the line matches \<^verbatim>\<open>DEFINE_RE\<close> and the synthesizer gave a non-empty
  docblock for its first group.
\<close>

definition line_output :: "(string \<Rightarrow> string option) \<Rightarrow> string \<Rightarrow> string list" where
  "line_output build l =
     (case DEFINE_RE_match l of
        None \<Rightarrow> [l]
      | Some (gl_name, internal) \<Rightarrow>
          (case build gl_name of
             None \<Rightarrow> [l]
           | Some doc \<Rightarrow> if doc \<noteq> [] then [doc, l] else [l]))"

text \<open>The list \<^verbatim>\<open>out_lines\<close> of \<^verbatim>\<open>process\<close>, line by line.\<close>

definition rewrite_lines :: "(string \<Rightarrow> string option) \<Rightarrow> string list \<Rightarrow> string list" where
  "rewrite_lines build ls =
     concat (map (\<lambda>k. if int k \<in> marked_lines ls then [] else line_output build (ls ! k))
               [0..<length ls])"

text \<open>
  The lines an element of \<^verbatim>\<open>out_lines\<close> becomes in the output file, where a line feed
  follows it, and the lines of a list of elements.
\<close>

definition written_lines :: "string \<Rightarrow> string list" where
  "written_lines x = splitlines (x @ [CHR 0x0A])"

definition flat_lines :: "string list \<Rightarrow> string list" where
  "flat_lines xs = concat (map written_lines xs)"

text \<open>
  Lines with the shape of a generated block: the first has \<^verbatim>\<open>/**\<close> in it, the last has
  \<^verbatim>\<open>*/\<close> in it, and the lines after the first are lines the upward scan steps over,
  without \<^verbatim>\<open>/**\<close>.
\<close>

definition generated_block :: "string list \<Rightarrow> bool" where
  "generated_block ls \<longleftrightarrow>
     ls \<noteq> [] \<and> occurs_in ''/**'' (hd ls) \<and> occurs_in ''*/'' (last ls) \<and>
     (\<forall>l\<in>set (tl ls). \<not> occurs_in ''/**'' l \<and> comment_body l)"

text \<open>
  A macro line is settled for a second run: the synthesizer gives, for its first group,
  a docblock that is not empty and is written as a generated block, or it gives none
  and no block is found above the line.
\<close>

definition settled :: "(string \<Rightarrow> string option) \<Rightarrow> string list \<Rightarrow> nat \<Rightarrow> bool" where
  "settled build ls i \<longleftrightarrow>
     (case DEFINE_RE_match (ls ! i) of
        None \<Rightarrow> True
      | Some (gl_name, internal) \<Rightarrow>
          (case build gl_name of
             None \<Rightarrow> find_docblock_above ls (int i) = Inr None
           | Some doc \<Rightarrow>
               if doc \<noteq> [] then generated_block (written_lines doc)
               else find_docblock_above ls (int i) = Inr None))"

text \<open>
  What is kept of the lines \<open>xs\<close> above a macro line \<open>d\<close>: the lines outside the range
  that \<^verbatim>\<open>find_docblock_above\<close> returns for the macro line.
\<close>

definition kept_above :: "string list \<Rightarrow> string \<Rightarrow> string list" where
  "kept_above xs d =
     (case find_docblock_above (xs @ [d]) (int (length xs)) of
        Inr (Some (a, b)) \<Rightarrow> take (nat a) xs @ drop (Suc (nat b)) xs
      | _ \<Rightarrow> xs)"

section \<open>Example data\<close>

text \<open>Two registries with aliases: a cycle of length two, and a chain beside a cycle of length one.\<close>

definition cyc2 :: GLRegistry where
  "cyc2 = \<lparr>commands = [], alias_of = [(''glA'', ''glB''), (''glB'', ''glA'')],
     introduced_version = [], extensions_for_cmd = []\<rparr>"

definition chain3 :: GLRegistry where
  "chain3 = \<lparr>commands = [], alias_of = [(''glA'', ''glB''), (''glB'', ''glC''), (''glD'', ''glD'')],
     introduced_version = [], extensions_for_cmd = []\<rparr>"


text \<open>
  A registry with the one command \<^verbatim>\<open>void glFoo()\<close>, a reference page store without
  pages, the docblock \<^verbatim>\<open>build_doc\<close> gives for \<^verbatim>\<open>glFoo\<close> from them, and two input
  files.
\<close>

definition reg_foo :: GLRegistry where
  "reg_foo = \<lparr>commands = [(''glFoo'', \<lparr>c_ret = ''void'', c_params = [], c_alias = None\<rparr>)],
     alias_of = [], introduced_version = [], extensions_for_cmd = []\<rparr>"

definition no_refs :: RefPages where
  "no_refs = \<lparr>folder_tag = ''gl4'', documents = (\<lambda>f. None)\<rparr>"

definition doc_foo :: string where
  "doc_foo = ''/**'' @ [CHR 0x0A] @
     '' * '' @ bsl @ ''see https://registry.khronos.org/OpenGL-Refpages/gl4/html/glFoo.xhtml''
     @ [CHR 0x0A] @ '' */''"

definition file_stray :: "string list" where
  "file_stray = [''/** a */'', '' * stray'', ''#define glFoo glad_glFoo'']"

definition file_old :: "string list" where
  "file_old = [''/** old */'', '''', ''#define glFoo glad_glFoo'', ''int x;'']"

text \<open>
  A registry document whose one command has a prototype with a name and nothing else,
  so that its return type is the empty string.
\<close>

definition root_untyped :: element where
  "root_untyped =
     Element ''registry'' [] [] [
       Element ''commands'' [] [] [
         Element ''command'' [] [] [
           Element ''proto'' [] [] [Element ''name'' [] ''glFoo'' [] []] []] []] []] []"

text \<open>A registry with the one command \<^verbatim>\<open>GLuint glBar()\<close>.\<close>

definition reg_bar :: GLRegistry where
  "reg_bar = \<lparr>commands = [(''glBar'', \<lparr>c_ret = ''GLuint'', c_params = [], c_alias = None\<rparr>)],
     alias_of = [], introduced_version = [], extensions_for_cmd = []\<rparr>"

text \<open>The reference line of the docblock for \<^verbatim>\<open>glFoo\<close>.\<close>

definition see_foo :: string where
  "see_foo = '' * '' @ bsl @ ''see https://registry.khronos.org/OpenGL-Refpages/gl4/html/glFoo.xhtml''"

text \<open>
  Registry documents in which the feature blocks 1.0 and 3.3 require \<^verbatim>\<open>glFoo\<close>, in
  both orders, and one in which a block with the version \<^verbatim>\<open>x.y\<close> comes first.
\<close>

definition root_10_33 :: element where
  "root_10_33 =
     Element ''registry'' [] [] [
       Element ''feature'' [(''api'', ''gl''), (''number'', ''1.0'')] [] [
         Element ''require'' [] [] [Element ''command'' [(''name'', ''glFoo'')] [] [] []] []] [],
       Element ''feature'' [(''api'', ''gl''), (''number'', ''3.3'')] [] [
         Element ''require'' [] [] [Element ''command'' [(''name'', ''glFoo'')] [] [] []] []] []] []"

definition root_33_10 :: element where
  "root_33_10 =
     Element ''registry'' [] [] [
       Element ''feature'' [(''api'', ''gl''), (''number'', ''3.3'')] [] [
         Element ''require'' [] [] [Element ''command'' [(''name'', ''glFoo'')] [] [] []] []] [],
       Element ''feature'' [(''api'', ''gl''), (''number'', ''1.0'')] [] [
         Element ''require'' [] [] [Element ''command'' [(''name'', ''glFoo'')] [] [] []] []] []] []"

definition root_bad_10 :: element where
  "root_bad_10 =
     Element ''registry'' [] [] [
       Element ''feature'' [(''api'', ''gl''), (''number'', ''x.y'')] [] [
         Element ''require'' [] [] [Element ''command'' [(''name'', ''glFoo'')] [] [] []] []] [],
       Element ''feature'' [(''api'', ''gl''), (''number'', ''1.0'')] [] [
         Element ''require'' [] [] [Element ''command'' [(''name'', ''glFoo'')] [] [] []] []] []] []"


definition entry_x :: element where
  "entry_x =
     Element (db ''varlistentry'') [] [] [
       Element (db ''term'') [] [] [Element (db ''parameter'') [] ''x'' [] []] [],
       Element (db ''listitem'') [] [] [Element (db ''para'') [] ''Only x'' [] []] []] []"


definition sect_of :: "element list \<Rightarrow> element" where
  "sect_of entries =
     Element (db ''refsect1'') [(''{http://www.w3.org/XML/1998/namespace}id'', ''parameters'')] [] [
       Element (db ''title'') [] ''Parameters'' [] [],
       Element (db ''variablelist'') [] [] entries []] []"


text \<open>
  A registry in which \<^verbatim>\<open>glFoo\<close> has the parameter \<open>x\<close> of type \<^verbatim>\<open>GLint\<close> in the
  group \<^verbatim>\<open>Mode\<close> and is introduced in version 4.0, and a reference page for
  \<^verbatim>\<open>glFoo\<close> with a purpose and a description of \<open>x\<close> and without a prototype.
\<close>

definition reg_foo_x :: GLRegistry where
  "reg_foo_x =
     \<lparr>commands = [(''glFoo'', \<lparr>c_ret = ''void'',
          c_params = [\<lparr>p_type = ''GLint'', p_name = ''x'', p_group = Some ''Mode'', p_len = None\<rparr>],
          c_alias = None\<rparr>)],
      alias_of = [], introduced_version = [(''glFoo'', ''4.0'')], extensions_for_cmd = []\<rparr>"

definition refs_foo_prose :: RefPages where
  "refs_foo_prose =
     \<lparr>folder_tag = ''gl4'',
      documents = (\<lambda>f. if f = ''glFoo''
                       then Some (Element (db ''refentry'') [] [] [
                              Element (db ''refnamediv'') [] [] [
                                Element (db ''refpurpose'') [] ''do foo'' [] []] [],
                              sect_of [entry_x]] [])
                       else None)\<rparr>"

definition doc_foo_x :: "string list" where
  "doc_foo_x =
     [''/**'',
      '' * '' @ bsl @ ''brief do foo.'',
      '' * '' @ bsl @ ''param x (GLint) - Only x  [group: Mode]'',
      see_foo,
      '' * '' @ bsl @ ''note Introduced in OpenGL 4.0'',
      '' */'']"

text \<open>
  A registry whose one command bears the name \<^verbatim>\<open>glad_glFoo\<close>, and the docblock
  \<^verbatim>\<open>build_doc\<close> gives for that name.
\<close>

definition reg_glad_foo :: GLRegistry where
  "reg_glad_foo = \<lparr>commands = [(''glad_glFoo'', \<lparr>c_ret = ''void'', c_params = [], c_alias = None\<rparr>)],
     alias_of = [], introduced_version = [], extensions_for_cmd = []\<rparr>"

definition doc_glad_foo :: string where
  "doc_glad_foo = ''/**'' @ [CHR 0x0A] @
     '' * '' @ bsl @ ''see https://registry.khronos.org/OpenGL-Refpages/gl4/html/glad_glFoo.xhtml''
     @ [CHR 0x0A] @ '' */''"

section \<open>Alias resolution: properties\<close>

lemma resolve_loop_reach: "(cur, resolve_alias_loop al seen cur) \<in> (alias_step al)\<^sup>*"
proof (induction al seen cur rule: resolve_alias_loop.induct)
  case (1 al seen cur)
  show ?case
  proof (cases "map_of al cur")
    case None
    then show ?thesis by (simp add: resolve_alias_loop.simps[of al seen cur])
  next
    case (Some nxt)
    show ?thesis
    proof (cases "cur \<in> seen")
      case True
      then show ?thesis using Some by (simp add: resolve_alias_loop.simps[of al seen cur])
    next
      case False
      have "(cur, nxt) \<in> alias_step al" using Some by (simp add: alias_step_def)
      moreover have "(nxt, resolve_alias_loop al (insert cur seen) nxt) \<in> (alias_step al)\<^sup>*"
        using "1.IH"[OF Some False] .
      ultimately show ?thesis using Some False
        by (simp add: resolve_alias_loop.simps[of al seen cur] converse_rtrancl_into_rtrancl)
    qed
  qed
qed

lemma resolve_loop_visits:
  "(resolve_alias_visits al seen cur = [] \<longrightarrow> resolve_alias_loop al seen cur = cur) \<and>
   (resolve_alias_visits al seen cur \<noteq> [] \<longrightarrow>
      map_of al (last (resolve_alias_visits al seen cur)) = Some (resolve_alias_loop al seen cur)) \<and>
   (map_of al (resolve_alias_loop al seen cur) = None \<or>
      resolve_alias_loop al seen cur \<in> seen \<union> set (resolve_alias_visits al seen cur)) \<and>
   distinct (resolve_alias_visits al seen cur) \<and>
   set (resolve_alias_visits al seen cur) \<inter> seen = {} \<and>
   set (resolve_alias_visits al seen cur) \<subseteq> dom (map_of al)"
proof (induction al seen cur rule: resolve_alias_loop.induct)
  case (1 al seen cur)
  show ?case
  proof (cases "map_of al cur")
    case None
    then show ?thesis
      by (simp add: resolve_alias_loop.simps[of al seen cur] resolve_alias_visits.simps[of al seen cur])
  next
    case (Some nxt)
    show ?thesis
    proof (cases "cur \<in> seen")
      case True
      then show ?thesis using Some
        by (simp add: resolve_alias_loop.simps[of al seen cur] resolve_alias_visits.simps[of al seen cur])
    next
      case False
      note IH = "1.IH"[OF Some False]
      have L: "resolve_alias_loop al seen cur = resolve_alias_loop al (insert cur seen) nxt"
        using Some False by (simp add: resolve_alias_loop.simps[of al seen cur])
      have V: "resolve_alias_visits al seen cur = cur # resolve_alias_visits al (insert cur seen) nxt"
        using Some False by (simp add: resolve_alias_visits.simps[of al seen cur])
      show ?thesis unfolding L V using IH Some False by auto
    qed
  qed
qed

lemma visits_length: "length (resolve_alias_visits al seen cur) \<le> length al"
proof -
  have "length (resolve_alias_visits al seen cur) = card (set (resolve_alias_visits al seen cur))"
    using resolve_loop_visits[of al seen cur] by (simp add: distinct_card)
  also have "\<dots> \<le> card (dom (map_of al))"
    using resolve_loop_visits[of al seen cur] by (intro card_mono) (simp_all add: finite_dom_map_of)
  also have "\<dots> \<le> length al"
    by (metis card_image_le card_length dom_map_of_conv_image_fst le_trans List.finite_set)
  finally show ?thesis .
qed


lemma alias_cycle_successor:
  assumes "(name, y) \<in> (alias_step al)\<^sup>*"
    and "(name, x) \<in> (alias_step al)\<^sup>*"
    and "(x, x) \<in> (alias_step al)\<^sup>+"
  shows "(y, x) \<in> (alias_step al)\<^sup>+"
  using assms(1)
proof (induction rule: rtrancl_induct)
  case base
  show ?case
  proof (cases "name = x")
    case True
    then show ?thesis using assms(3) by simp
  next
    case False
    then show ?thesis using assms(2) by (simp add: rtrancl_eq_or_trancl)
  qed
next
  case (step y z)
  from step.IH obtain w where w: "(y, w) \<in> alias_step al" "(w, x) \<in> (alias_step al)\<^sup>*"
    by (auto dest: tranclD)
  have "w = z" using w(1) step.hyps(2) by (simp add: alias_step_def)
  then have zx: "(z, x) \<in> (alias_step al)\<^sup>*" using w(2) by simp
  show ?case
  proof (cases "z = x")
    case True
    then show ?thesis using assms(3) by simp
  next
    case False
    then show ?thesis using zx by (simp add: rtrancl_eq_or_trancl)
  qed
qed

lemma alias_chain_Cons:
  "alias_chain al (x # ys) \<longleftrightarrow> ys = [] \<or> (map_of al x = Some (hd ys) \<and> alias_chain al ys)"
  by (cases ys) simp_all

lemma visits_chain:
  "alias_chain al (resolve_alias_visits al seen cur) \<and>
   (resolve_alias_visits al seen cur \<noteq> [] \<longrightarrow> hd (resolve_alias_visits al seen cur) = cur)"
proof (induction al seen cur rule: resolve_alias_visits.induct)
  case (1 al seen cur)
  show ?case
  proof (cases "map_of al cur")
    case None
    then show ?thesis by (simp add: resolve_alias_visits.simps[of al seen cur])
  next
    case (Some nxt)
    show ?thesis
    proof (cases "cur \<in> seen")
      case True
      then show ?thesis using Some by (simp add: resolve_alias_visits.simps[of al seen cur])
    next
      case False
      note IH = "1.IH"[OF Some False]
      have V: "resolve_alias_visits al seen cur = cur # resolve_alias_visits al (insert cur seen) nxt"
        using Some False by (simp add: resolve_alias_visits.simps[of al seen cur])
      show ?thesis unfolding V using IH Some by (auto simp add: alias_chain_Cons)
    qed
  qed
qed

lemma alias_chain_suffix: "alias_chain al (xs @ ys) \<Longrightarrow> alias_chain al ys"
proof (induction xs)
  case Nil
  then show ?case by simp
next
  case (Cons x xs)
  then show ?case by (cases "xs @ ys") (simp_all add: alias_chain_Cons)
qed

lemma alias_chain_reach:
  "alias_chain al (x # xs) \<Longrightarrow> (x, last (x # xs)) \<in> (alias_step al)\<^sup>*"
proof (induction xs arbitrary: x)
  case Nil
  then show ?case by simp
next
  case (Cons y ys)
  then have s: "(x, y) \<in> alias_step al" and c: "alias_chain al (y # ys)"
    by (simp_all add: alias_step_def)
  have "(y, last (y # ys)) \<in> (alias_step al)\<^sup>*" using Cons.IH[OF c] .
  then show ?case using s by (simp add: converse_rtrancl_into_rtrancl)
qed

text \<open>
  Claim C2, as amended. When the alias chain of \<open>name\<close> runs into a cycle,
  \<^verbatim>\<open>resolve_alias\<close> returns the first repeated name. The names added to the seen-set
  are, in the order they are added, a chain of aliases without repetition that starts at
  \<open>name\<close>, with at least one name; the value returned is the alias target of the last
  name added and is itself one of the names added, the name about to be visited again;
  it lies on a cycle. It is the last name added exactly when it is its own alias, a cycle
  of length one; on a longer cycle it is a name added earlier.
\<close>

theorem resolve_alias_cycle_first_repeat:
  assumes "(name, x) \<in> (alias_step (alias_of reg))\<^sup>*"
    and "(x, x) \<in> (alias_step (alias_of reg))\<^sup>+"
  shows "resolve_alias_visits (alias_of reg) {} name \<noteq> [] \<and>
         hd (resolve_alias_visits (alias_of reg) {} name) = name \<and>
         alias_chain (alias_of reg) (resolve_alias_visits (alias_of reg) {} name) \<and>
         distinct (resolve_alias_visits (alias_of reg) {} name) \<and>
         map_of (alias_of reg) (last (resolve_alias_visits (alias_of reg) {} name))
           = Some (resolve_alias reg name) \<and>
         resolve_alias reg name \<in> set (resolve_alias_visits (alias_of reg) {} name) \<and>
         (resolve_alias reg name, resolve_alias reg name) \<in> (alias_step (alias_of reg))\<^sup>+ \<and>
         (resolve_alias reg name = last (resolve_alias_visits (alias_of reg) {} name) \<longleftrightarrow>
            map_of (alias_of reg) (resolve_alias reg name) = Some (resolve_alias reg name))"
proof -
  let ?al = "alias_of reg"
  let ?r = "resolve_alias_loop ?al {} name"
  let ?vs = "resolve_alias_visits ?al {} name"
  have "(name, ?r) \<in> (alias_step ?al)\<^sup>*" by (rule resolve_loop_reach)
  then have "(?r, x) \<in> (alias_step ?al)\<^sup>+"
    using assms by (rule alias_cycle_successor)
  then obtain w where "(?r, w) \<in> alias_step ?al" by (auto dest: tranclD)
  then have dom: "map_of ?al ?r \<noteq> None" by (simp add: alias_step_def)
  have in_vs: "?r \<in> set ?vs"
    using resolve_loop_visits[of ?al "{}" name] dom by auto
  then have ne: "?vs \<noteq> []" by auto
  have lst: "map_of ?al (last ?vs) = Some ?r"
    using ne resolve_loop_visits[of ?al "{}" name] by blast
  have dist: "distinct ?vs" using resolve_loop_visits[of ?al "{}" name] by blast
  have ch: "alias_chain ?al ?vs" and hd: "hd ?vs = name"
    using visits_chain[of ?al "{}" name] ne by simp_all
  obtain xs ys where sp: "?vs = xs @ ?r # ys" using in_vs by (auto dest: split_list)
  have cr: "alias_chain ?al (?r # ys)" using ch sp alias_chain_suffix[of ?al xs "?r # ys"] by simp
  have "(?r, last (?r # ys)) \<in> (alias_step ?al)\<^sup>*" using cr by (rule alias_chain_reach)
  moreover have "last (?r # ys) = last ?vs" using sp by simp
  moreover have "(last ?vs, ?r) \<in> alias_step ?al" using lst by (simp add: alias_step_def)
  ultimately have cyc: "(?r, ?r) \<in> (alias_step ?al)\<^sup>+" by (simp add: rtrancl_into_trancl1)
  have self: "?r = last ?vs \<longleftrightarrow> map_of ?al ?r = Some ?r"
  proof
    assume "?r = last ?vs"
    then show "map_of ?al ?r = Some ?r" using lst by simp
  next
    assume s: "map_of ?al ?r = Some ?r"
    have "ys = []"
    proof (rule ccontr)
      assume "ys \<noteq> []"
      then obtain y ys' where y: "ys = y # ys'" by (cases ys) auto
      then have "map_of ?al ?r = Some y" using cr by simp
      then have "y = ?r" using s by simp
      then have "?r \<in> set ys" using y by simp
      moreover have "distinct (xs @ ?r # ys)" using dist sp by simp
      ultimately show False by simp
    qed
    then show "?r = last ?vs" using sp by simp
  qed
  show ?thesis using in_vs ne lst dist ch hd cyc self by (simp add: resolve_alias_def)
qed

lemma cyc2_run:
  "resolve_alias cyc2 ''glA'' = ''glA''"
  "resolve_alias_visits (alias_of cyc2) {} ''glA'' = [''glA'', ''glB'']"
  by (simp_all add: cyc2_def resolve_alias_def resolve_alias_loop.simps resolve_alias_visits.simps)

text \<open>
  Claim C2 as stated fails on a cycle of length two: from \<open>glA\<close> the loop adds
  \<open>glA\<close>, then \<open>glB\<close>, and returns \<open>glA\<close>, which is not the last name added.
\<close>

theorem resolve_alias_cycle_last_visited_counterexample:
  "(''glA'', ''glA'') \<in> (alias_step (alias_of cyc2))\<^sup>+ \<and>
   resolve_alias cyc2 ''glA'' = ''glA'' \<and>
   last (resolve_alias_visits (alias_of cyc2) {} ''glA'') = ''glB'' \<and>
   resolve_alias cyc2 ''glA'' \<noteq> last (resolve_alias_visits (alias_of cyc2) {} ''glA'')"
proof -
  have "(''glA'', ''glB'') \<in> alias_step (alias_of cyc2)"
    and "(''glB'', ''glA'') \<in> alias_step (alias_of cyc2)"
    by (simp_all add: alias_step_def cyc2_def)
  then have "(''glA'', ''glA'') \<in> (alias_step (alias_of cyc2))\<^sup>+"
    by (meson trancl.intros)
  then show ?thesis by (simp add: cyc2_run)
qed

lemma chain3_run:
  "resolve_alias chain3 ''glD'' = ''glD''"
  "resolve_alias_visits (alias_of chain3) {} ''glD'' = [''glD'']"
  by (simp_all add: chain3_def resolve_alias_def resolve_alias_loop.simps resolve_alias_visits.simps)

theorem resolve_alias_cycle_first_repeat_witness:
  "(''glA'', ''glA'') \<in> (alias_step (alias_of cyc2))\<^sup>* \<and>
   (''glA'', ''glA'') \<in> (alias_step (alias_of cyc2))\<^sup>+ \<and>
   resolve_alias_visits (alias_of cyc2) {} ''glA'' = [''glA'', ''glB''] \<and>
   alias_chain (alias_of cyc2) [''glA'', ''glB''] \<and>
   map_of (alias_of cyc2) ''glB'' = Some (resolve_alias cyc2 ''glA'') \<and>
   resolve_alias cyc2 ''glA'' = ''glA'' \<and>
   map_of (alias_of cyc2) ''glA'' \<noteq> Some ''glA'' \<and>
   (''glD'', ''glD'') \<in> (alias_step (alias_of chain3))\<^sup>* \<and>
   (''glD'', ''glD'') \<in> (alias_step (alias_of chain3))\<^sup>+ \<and>
   resolve_alias_visits (alias_of chain3) {} ''glD'' = [''glD''] \<and>
   resolve_alias chain3 ''glD'' = ''glD'' \<and>
   map_of (alias_of chain3) ''glD'' = Some ''glD''"
proof -
  have "(''glA'', ''glB'') \<in> alias_step (alias_of cyc2)"
    and "(''glB'', ''glA'') \<in> alias_step (alias_of cyc2)"
    by (simp_all add: alias_step_def cyc2_def)
  then have c: "(''glA'', ''glA'') \<in> (alias_step (alias_of cyc2))\<^sup>+"
    by (meson trancl.intros)
  have r: "(''glA'', ''glA'') \<in> (alias_step (alias_of cyc2))\<^sup>*" by simp
  have "(''glD'', ''glD'') \<in> alias_step (alias_of chain3)"
    by (simp add: alias_step_def chain3_def)
  then have d: "(''glD'', ''glD'') \<in> (alias_step (alias_of chain3))\<^sup>+" by blast
  have s: "(''glD'', ''glD'') \<in> (alias_step (alias_of chain3))\<^sup>*" by simp
  have m: "map_of (alias_of cyc2) ''glA'' \<noteq> Some ''glA''" by (simp add: cyc2_def)
  show ?thesis
    using resolve_alias_cycle_first_repeat[OF r c] resolve_alias_cycle_first_repeat[OF s d] c d m
    by (simp add: cyc2_run chain3_run)
qed

text \<open>
  Claim C3. For every alias dictionary, with or without cycles, \<^verbatim>\<open>resolve_alias\<close>
  returns (the function is total: its termination is proved at its definition, and the
  loop body runs at most once per alias entry), the name returned is reachable from
  the input along alias pointers, and a name with no alias entry is returned unchanged.
\<close>

theorem resolve_alias_terminates_reachable:
  "(name, resolve_alias reg name) \<in> (alias_step (alias_of reg))\<^sup>* \<and>
   (map_of (alias_of reg) name = None \<longrightarrow> resolve_alias reg name = name) \<and>
   length (resolve_alias_visits (alias_of reg) {} name) \<le> length (alias_of reg)"
proof -
  have "map_of (alias_of reg) name = None \<Longrightarrow> resolve_alias reg name = name"
    by (simp add: resolve_alias_def resolve_alias_loop.simps[of _ _ name])
  then show ?thesis
    by (simp add: resolve_alias_def resolve_loop_reach visits_length)
qed

theorem resolve_alias_terminates_reachable_witness:
  "map_of (alias_of chain3) ''glC'' = None \<and> resolve_alias chain3 ''glC'' = ''glC'' \<and>
   (''glC'', resolve_alias chain3 ''glC'') \<in> (alias_step (alias_of chain3))\<^sup>* \<and>
   resolve_alias chain3 ''glA'' = ''glC'' \<and>
   (''glA'', ''glC'') \<in> (alias_step (alias_of chain3))\<^sup>* \<and>
   resolve_alias chain3 ''glD'' = ''glD'' \<and>
   length (resolve_alias_visits (alias_of chain3) {} ''glA'') \<le> length (alias_of chain3)"
proof -
  have n: "map_of (alias_of chain3) ''glC'' = None" by (simp add: chain3_def)
  have a: "resolve_alias chain3 ''glA'' = ''glC''" "resolve_alias chain3 ''glD'' = ''glD''"
    by (simp_all add: chain3_def resolve_alias_def resolve_alias_loop.simps)
  show ?thesis
    using resolve_alias_terminates_reachable[of "''glC''" chain3]
      resolve_alias_terminates_reachable[of "''glA''" chain3] n a
    by simp
qed

section \<open>Introducing versions\<close>

lemma map_of_note_version:
  "map_of (note_version number nm' iv) nm =
     (if nm' = nm
      then Some (case map_of iv nm of None \<Rightarrow> number | Some cur \<Rightarrow> retain cur [number])
      else map_of iv nm)"
  by (auto simp: note_version_def update_conv' split: option.splits)

lemma parse_feature_pairs:
  "parse_feature feat iv = fold (\<lambda>p. note_version (fst p) (snd p)) (feature_pairs feat) iv"
  by (simp add: parse_feature_def feature_pairs_def Let_def fold_map comp_def)

lemma parse_features_pairs:
  "fold parse_feature feats iv
     = fold (\<lambda>p. note_version (fst p) (snd p)) (concat (map feature_pairs feats)) iv"
  by (induction feats arbitrary: iv) (simp_all add: parse_feature_pairs)

lemma fold_note_version_Some:
  "map_of iv nm = Some cur \<Longrightarrow>
   map_of (fold (\<lambda>p. note_version (fst p) (snd p)) ps iv) nm
     = Some (retain cur (map fst (filter (\<lambda>p. snd p = nm) ps)))"
proof (induction ps arbitrary: iv cur)
  case Nil
  then show ?case by simp
next
  case (Cons p ps)
  show ?case
  proof (cases "snd p = nm")
    case True
    have "map_of (note_version (fst p) (snd p) iv) nm = Some (retain cur [fst p])"
      using True Cons.prems by (simp add: map_of_note_version)
    from Cons.IH[OF this] show ?thesis using True by simp
  next
    case False
    have "map_of (note_version (fst p) (snd p) iv) nm = Some cur"
      using False Cons.prems by (simp add: map_of_note_version)
    from Cons.IH[OF this] show ?thesis using False by simp
  qed
qed

lemma fold_note_version_None:
  "map_of iv nm = None \<Longrightarrow>
   map_of (fold (\<lambda>p. note_version (fst p) (snd p)) ps iv) nm
     = (case map fst (filter (\<lambda>p. snd p = nm) ps) of [] \<Rightarrow> None | v # vs \<Rightarrow> Some (retain v vs))"
proof (induction ps arbitrary: iv)
  case Nil
  then show ?case by simp
next
  case (Cons p ps)
  show ?case
  proof (cases "snd p = nm")
    case True
    have "map_of (note_version (fst p) (snd p) iv) nm = Some (fst p)"
      using True Cons.prems by (simp add: map_of_note_version)
    from fold_note_version_Some[OF this] show ?thesis using True by simp
  next
    case False
    have "map_of (note_version (fst p) (snd p) iv) nm = None"
      using False Cons.prems by (simp add: map_of_note_version)
    from Cons.IH[OF this] show ?thesis using False by simp
  qed
qed

lemma introduced_version_init:
  "map_of (introduced_version (GLRegistry_init root)) nm
     = (case feature_versions root nm of [] \<Rightarrow> None | v # vs \<Rightarrow> Some (retain v vs))"
proof -
  have c: "introduced_version (parse_command cmd reg) = introduced_version reg" for cmd reg
    by (simp add: parse_command_def Let_def split: option.splits)
  have "introduced_version (fold parse_command cmds reg) = introduced_version reg" for cmds reg
    by (induction cmds arbitrary: reg) (simp_all add: c)
  then have "introduced_version (parse_commands root reg) = introduced_version reg" for reg
    by (simp add: parse_commands_def)
  then have "introduced_version (GLRegistry_init root)
      = fold parse_feature (findall_child ''feature'' root) []"
    by (simp add: GLRegistry_init_def parse_extensions_def parse_features_def)
  then show ?thesis
    using fold_note_version_None[of "[]" nm "concat (map feature_pairs (findall_child ''feature'' root))"]
    by (simp add: parse_features_pairs feature_versions_def)
qed

lemma retain_unparsable: "version_tuple cur = None \<Longrightarrow> retain cur vs = cur"
  by (induction vs) (simp_all split: option.splits)

lemma retain_lowest:
  "version_tuple cur = Some tc \<Longrightarrow>
   \<exists>tr. retain cur vs \<in> set (cur # vs) \<and> version_tuple (retain cur vs) = Some tr \<and> tr \<le> tc \<and>
        (\<forall>w\<in>set vs. \<forall>tw. version_tuple w = Some tw \<longrightarrow> tr \<le> tw)"
proof (induction vs arbitrary: cur tc)
  case Nil
  then show ?case by simp
next
  case (Cons v vs)
  show ?case
  proof (cases "version_tuple v")
    case None
    then have e: "retain cur (v # vs) = retain cur vs" by simp
    from Cons.IH[OF Cons.prems] obtain tr where
      "retain cur vs \<in> set (cur # vs)" "version_tuple (retain cur vs) = Some tr" "tr \<le> tc"
      "\<forall>w\<in>set vs. \<forall>tw. version_tuple w = Some tw \<longrightarrow> tr \<le> tw" by blast
    then show ?thesis unfolding e using None by auto
  next
    case (Some a)
    show ?thesis
    proof (cases "a < tc")
      case True
      then have e: "retain cur (v # vs) = retain v vs" using Some Cons.prems by simp
      from Cons.IH[OF Some] obtain tr where
        h: "retain v vs \<in> set (v # vs)" "version_tuple (retain v vs) = Some tr" "tr \<le> a"
        "\<forall>w\<in>set vs. \<forall>tw. version_tuple w = Some tw \<longrightarrow> tr \<le> tw" by blast
      have "tr \<le> tc" using h(3) True by simp
      then show ?thesis unfolding e using h Some by auto
    next
      case False
      then have e: "retain cur (v # vs) = retain cur vs" using Some Cons.prems by simp
      from Cons.IH[OF Cons.prems] obtain tr where
        h: "retain cur vs \<in> set (cur # vs)" "version_tuple (retain cur vs) = Some tr" "tr \<le> tc"
        "\<forall>w\<in>set vs. \<forall>tw. version_tuple w = Some tw \<longrightarrow> tr \<le> tw" by blast
      have "tr \<le> a" using h(3) False by simp
      then show ?thesis unfolding e using h Some by auto
    qed
  qed
qed

text \<open>
  Claim C5. Let \<open>vs\<close> be the versions of the feature blocks that require a command, in
  document order. The registry keeps no version when there is none. When the first of
  \<open>vs\<close> is not a list of integers separated by dots, it is the version kept. Otherwise
  the version kept is one of \<open>vs\<close>, it is such a list, and its list of integers is the
  lowest, in the component-wise order of tuples, among those of \<open>vs\<close> that are such
  lists, wherever they stand; the others are passed over. \<^verbatim>\<open>version_or_exts\<close> reports
  the version kept for the literal name.
\<close>

theorem introduced_version_lowest:
  "(feature_versions root nm = [] \<longrightarrow>
      map_of (introduced_version (GLRegistry_init root)) nm = None) \<and>
   (feature_versions root nm \<noteq> [] \<and> version_tuple (hd (feature_versions root nm)) = None \<longrightarrow>
      map_of (introduced_version (GLRegistry_init root)) nm = Some (hd (feature_versions root nm))) \<and>
   (feature_versions root nm \<noteq> [] \<and> version_tuple (hd (feature_versions root nm)) \<noteq> None \<longrightarrow>
      (\<exists>v tv. map_of (introduced_version (GLRegistry_init root)) nm = Some v \<and>
              v \<in> set (feature_versions root nm) \<and> version_tuple v = Some tv \<and>
              (\<forall>w\<in>set (feature_versions root nm). \<forall>tw. version_tuple w = Some tw \<longrightarrow> tv \<le> tw))) \<and>
   (map_of (introduced_version (GLRegistry_init root)) nm \<noteq> None \<longrightarrow>
      fst (version_or_exts (GLRegistry_init root) nm)
        = map_of (introduced_version (GLRegistry_init root)) nm)"
proof (cases "feature_versions root nm")
  case Nil
  then show ?thesis
    by (simp add: introduced_version_init version_or_exts_def Let_def)
next
  case (Cons c vs)
  have r: "map_of (introduced_version (GLRegistry_init root)) nm = Some (retain c vs)"
    using Cons by (simp add: introduced_version_init)
  have v: "fst (version_or_exts (GLRegistry_init root) nm) = Some (retain c vs)"
    using r by (simp add: version_or_exts_def Let_def)
  show ?thesis
  proof (cases "version_tuple c")
    case None
    then show ?thesis using Cons r v by (simp add: retain_unparsable)
  next
    case (Some tc)
    from retain_lowest[OF Some, of vs] obtain tr where
      h: "retain c vs \<in> set (c # vs)" "version_tuple (retain c vs) = Some tr" "tr \<le> tc"
      "\<forall>w\<in>set vs. \<forall>tw. version_tuple w = Some tw \<longrightarrow> tr \<le> tw" by blast
    have "\<forall>w\<in>set (c # vs). \<forall>tw. version_tuple w = Some tw \<longrightarrow> tr \<le> tw"
      using h(3,4) Some by auto
    then have "\<exists>v tv. Some (retain c vs) = Some v \<and> v \<in> set (c # vs) \<and> version_tuple v = Some tv \<and>
              (\<forall>w\<in>set (c # vs). \<forall>tw. version_tuple w = Some tw \<longrightarrow> tv \<le> tw)"
      using h(1,2) by blast
    then show ?thesis using Cons r v Some by simp
  qed
qed

theorem introduced_version_lowest_witness:
  "feature_versions root_10_33 ''glFoo'' = [''1.0'', ''3.3''] \<and>
   map_of (introduced_version (GLRegistry_init root_10_33)) ''glFoo'' = Some ''1.0'' \<and>
   feature_versions root_33_10 ''glFoo'' = [''3.3'', ''1.0''] \<and>
   map_of (introduced_version (GLRegistry_init root_33_10)) ''glFoo'' = Some ''1.0'' \<and>
   fst (version_or_exts (GLRegistry_init root_33_10) ''glFoo'') = Some ''1.0'' \<and>
   version_tuple ''1.0'' = Some [1, 0] \<and> version_tuple ''3.3'' = Some [3, 3] \<and>
   feature_versions root_bad_10 ''glFoo'' = [''x.y'', ''1.0''] \<and>
   version_tuple ''x.y'' = None \<and>
   map_of (introduced_version (GLRegistry_init root_bad_10)) ''glFoo'' = Some ''x.y''"
proof -
  have a: "feature_versions root_10_33 ''glFoo'' = [''1.0'', ''3.3'']"
    "map_of (introduced_version (GLRegistry_init root_10_33)) ''glFoo'' = Some ''1.0''"
    "feature_versions root_33_10 ''glFoo'' = [''3.3'', ''1.0'']"
    "map_of (introduced_version (GLRegistry_init root_33_10)) ''glFoo'' = Some ''1.0''"
    "version_tuple ''1.0'' = Some [1, 0]" "version_tuple ''3.3'' = Some [3, 3]"
    "feature_versions root_bad_10 ''glFoo'' = [''x.y'', ''1.0'']"
    "version_tuple ''x.y'' = None"
    by code_simp+
  have b: "fst (version_or_exts (GLRegistry_init root_33_10) ''glFoo'') = Some ''1.0''"
    using introduced_version_lowest[of root_33_10 "''glFoo''"] a(4) by simp
  have c: "map_of (introduced_version (GLRegistry_init root_bad_10)) ''glFoo'' = Some ''x.y''"
    using introduced_version_lowest[of root_bad_10 "''glFoo''"] a(7,8) by simp
  show ?thesis using a b c by simp
qed

section \<open>Parameter descriptions\<close>










section \<open>The macro pattern\<close>

lemma space_not_ident: "is_space c \<Longrightarrow> \<not> is_ident_char c"
  by (auto simp: is_space_def is_ident_char_def)

lemma ident_literals:
  "is_ident_char CHR ''g''" "is_ident_char CHR ''l''" "is_ident_char CHR ''a''"
  "is_ident_char CHR ''d''" "is_ident_char CHR ''_''" "\<not> is_ident_char CHR ''#''"
  "\<not> is_space CHR ''#''" "\<not> is_space CHR ''d''" "\<not> is_ident_char CHR ''*''" "\<not> is_space CHR ''*''"
  "\<not> is_ident_char CHR ''/''" "\<not> is_space CHR ''/''" "\<not> is_space CHR ''g''"
  by (simp_all add: is_ident_char_def is_space_def)

lemma startswith_append: "startswith s p \<longleftrightarrow> (\<exists>r. s = p @ r)"
  unfolding startswith_def
  by (metis append_eq_conv_conj append_take_drop_id)

lemma dropWhile_all: "list_all P xs \<Longrightarrow> dropWhile P (xs @ ys) = dropWhile P ys"
  by (induction xs) auto

lemma takeWhile_all: "list_all P xs \<Longrightarrow> takeWhile P (xs @ ys) = xs @ takeWhile P ys"
  by (induction xs) auto

lemma starts_space_iff: "starts_space s \<longleftrightarrow> (\<exists>c r. s = c # r \<and> is_space c)"
  by (cases s) (auto simp: starts_space_def)

lemma list_all_takeWhile: "list_all P (takeWhile P xs)"
  by (induction xs) auto

lemma DEFINE_RE_match_complete:
  assumes "define_line_shape l g1 g2"
  shows "DEFINE_RE_match l = Some (g1, g2)"
proof -
  from assms obtain w0 w1 w2 w3 w4 x y where
    l: "l = w0 @ ''#'' @ w1 @ ''define'' @ w2 @ g1 @ w3 @ g2 @ w4"
    and g: "g1 = ''gl'' @ x" "g2 = ''glad_gl'' @ y" "x \<noteq> []" "y \<noteq> []"
    and w: "w2 \<noteq> []" "w3 \<noteq> []"
    and sp: "list_all is_space w0" "list_all is_space w1" "list_all is_space w2"
            "list_all is_space w3" "list_all is_space w4"
    and idc: "list_all is_ident_char x" "list_all is_ident_char y"
    unfolding define_line_shape_def by auto
  obtain c2 r2 where w2: "w2 = c2 # r2" "is_space c2" using w(1) sp(3) by (cases w2) auto
  obtain c3 r3 where w3: "w3 = c3 # r3" "is_space c3" using w(2) sp(4) by (cases w3) auto
  have ig1: "list_all is_ident_char g1" using g(1) idc(1) by (simp add: ident_literals)
  have ig2: "list_all is_ident_char g2" using g(2) idc(2) by (simp add: ident_literals)
  define t5 where "t5 = w3 @ g2 @ w4"
  define t4 where "t4 = g1 @ t5"
  define t3 where "t3 = w2 @ t4"
  define t2 where "t2 = ''define'' @ t3"
  define t1 where "t1 = ''#'' @ w1 @ t2"
  have s1: "dropWhile is_space l = t1"
    using sp(1) by (simp add: l t1_def t2_def t3_def t4_def t5_def dropWhile_all ident_literals)
  have s2: "dropWhile is_space (drop 1 t1) = t2"
    using sp(2) by (simp add: t1_def t2_def dropWhile_all ident_literals)
  have s3: "drop 6 t2 = t3" by (simp add: t2_def)
  have s4: "dropWhile is_space t3 = t4"
    using sp(3) g(1) by (simp add: t3_def t4_def dropWhile_all ident_literals space_not_ident)
  have ss3: "starts_space t3" using w2 by (simp add: t3_def starts_space_def)
  have nid5: "takeWhile is_ident_char t5 = []" "dropWhile is_ident_char t5 = t5"
    using w3 by (simp_all add: t5_def space_not_ident)
  have tk1: "takeWhile is_ident_char t4 = g1"
    using ig1 nid5 by (simp add: t4_def takeWhile_all)
  have dr1: "dropWhile is_ident_char t4 = t5"
    using ig1 nid5 by (simp add: t4_def dropWhile_all)
  have ss5: "starts_space t5" using w3 by (simp add: t5_def starts_space_def)
  have s6: "dropWhile is_space t5 = g2 @ w4"
    using sp(4) g(2) by (simp add: t5_def dropWhile_all ident_literals space_not_ident)
  have n4: "takeWhile is_ident_char w4 = []" "dropWhile is_ident_char w4 = w4"
    using sp(5) by (cases w4; simp add: space_not_ident)+
  have tk2: "takeWhile is_ident_char (g2 @ w4) = g2"
    using ig2 n4 by (simp add: takeWhile_all)
  have dr2: "dropWhile is_ident_char (g2 @ w4) = w4"
    using ig2 n4 by (simp add: dropWhile_all)
  have e: "dropWhile is_space w4 = []" using sp(5) by (simp add: list_all_iff)
  have st1: "startswith t1 ''#''" by (simp add: t1_def startswith_def)
  have st2: "startswith t2 ''define''" by (simp add: t2_def startswith_def)
  have sg1: "startswith g1 ''gl''" "2 < length g1" using g by (simp_all add: startswith_def)
  have sg2: "startswith g2 ''glad_gl''" "7 < length g2" using g by (simp_all add: startswith_def)
  show ?thesis
    unfolding DEFINE_RE_match_def Let_def s1 s2 s3 s4 tk1 dr1 s6 tk2 dr2 e
    using st1 st2 ss3 ss5 sg1 sg2 by simp
qed

lemma DEFINE_RE_match_sound:
  assumes "DEFINE_RE_match l = Some (g1, g2)"
  shows "define_line_shape l g1 g2"
proof -
  define s1 where "s1 = dropWhile is_space l"
  define s2 where "s2 = dropWhile is_space (drop 1 s1)"
  define s3 where "s3 = drop 6 s2"
  define s4 where "s4 = dropWhile is_space s3"
  define s5 where "s5 = dropWhile is_ident_char s4"
  define s6 where "s6 = dropWhile is_space s5"
  define s7 where "s7 = dropWhile is_ident_char s6"
  have c0: "\<not> \<not> startswith s1 ''#'' \<and> \<not> \<not> startswith s2 ''define'' \<and> \<not> \<not> starts_space s3 \<and>
    \<not> \<not> (startswith (takeWhile is_ident_char s4) ''gl'' \<and> 2 < length (takeWhile is_ident_char s4)) \<and>
    \<not> \<not> starts_space s5 \<and>
    \<not> \<not> (startswith (takeWhile is_ident_char s6) ''glad_gl'' \<and> 7 < length (takeWhile is_ident_char s6)) \<and>
    \<not> dropWhile is_space s7 \<noteq> [] \<and>
    Some (takeWhile is_ident_char s4, takeWhile is_ident_char s6) = Some (g1, g2)"
    using assms
    unfolding DEFINE_RE_match_def Let_def s1_def s2_def s3_def s4_def s5_def s6_def s7_def
    by (meson option.distinct(1))
  have c: "startswith s1 ''#''" "startswith s2 ''define''" "starts_space s3"
    "startswith (takeWhile is_ident_char s4) ''gl''" "2 < length (takeWhile is_ident_char s4)"
    "starts_space s5"
    "startswith (takeWhile is_ident_char s6) ''glad_gl''" "7 < length (takeWhile is_ident_char s6)"
    "dropWhile is_space s7 = []"
    "g1 = takeWhile is_ident_char s4" "g2 = takeWhile is_ident_char s6"
    using c0 by auto
  define w0 where "w0 = takeWhile is_space l"
  define w1 where "w1 = takeWhile is_space (drop 1 s1)"
  define w2 where "w2 = takeWhile is_space s3"
  define w3 where "w3 = takeWhile is_space s5"
  have l0: "l = w0 @ s1" by (simp add: w0_def s1_def)
  have "s1 = ''#'' @ drop 1 s1"
    using c(1) by (cases s1) (simp_all add: startswith_def)
  then have l1: "s1 = ''#'' @ w1 @ s2"
    by (simp add: w1_def s2_def)
  have "take 6 s2 = ''define''" using c(2) by (simp add: startswith_def eval_nat_numeral)
  then have l2: "s2 = ''define'' @ s3"
    unfolding s3_def by (metis append_take_drop_id)
  have l3: "s3 = w2 @ s4" by (simp add: w2_def s4_def)
  have l4: "s4 = g1 @ s5" by (simp add: c(10) s5_def)
  have l5: "s5 = w3 @ s6" by (simp add: w3_def s6_def)
  have l6: "s6 = g2 @ s7" by (simp add: c(11) s7_def)
  have w2ne: "w2 \<noteq> []" using c(3) by (auto simp: starts_space_iff w2_def)
  have w3ne: "w3 \<noteq> []" using c(6) by (auto simp: starts_space_iff w3_def)
  have sp7: "list_all is_space s7"
    using c(9) by (simp add: dropWhile_eq_Nil_conv list_all_iff)
  obtain x where x: "g1 = ''gl'' @ x" using c(4) c(10) by (auto simp: startswith_append)
  obtain y where y: "g2 = ''glad_gl'' @ y" using c(7) c(11) by (auto simp: startswith_append)
  have "2 < length g1" "7 < length g2" using c(5) c(8) c(10) c(11) by simp_all
  then have xne: "x \<noteq> []" and yne: "y \<noteq> []" using x y by auto
  have ig: "list_all is_ident_char g1" "list_all is_ident_char g2"
    by (simp_all add: c(10) c(11) list_all_takeWhile)
  have "l = w0 @ ''#'' @ w1 @ ''define'' @ w2 @ g1 @ w3 @ g2 @ s7"
    using l0 l1 l2 l3 l4 l5 l6 by simp
  moreover have "list_all is_space (w0 @ w1 @ w2 @ w3 @ s7)"
    using sp7 by (simp add: w0_def w1_def w2_def w3_def list_all_takeWhile)
  moreover have "list_all is_ident_char (x @ y)" using ig x y by simp
  ultimately show ?thesis
    unfolding define_line_shape_def using x y xne yne w2ne w3ne by blast
qed

section \<open>The search for a block above a macro line\<close>

lemma strip_empty_iff: "strip s = [] \<longleftrightarrow> list_all is_space s"
proof -
  have "strip s = [] \<longleftrightarrow> dropWhile is_space (rev (dropWhile is_space s)) = []"
    by (simp add: strip_def rstrip_def lstrip_def)
  also have "\<dots> \<longleftrightarrow> (\<forall>x\<in>set (dropWhile is_space s). is_space x)"
    by (simp add: dropWhile_eq_Nil_conv)
  also have "\<dots> \<longleftrightarrow> list_all is_space s"
  proof
    assume a: "\<forall>x\<in>set (dropWhile is_space s). is_space x"
    have "dropWhile is_space s = []"
    proof (cases "dropWhile is_space s")
      case Nil
      then show ?thesis .
    next
      case (Cons c cs)
      then have "\<not> is_space c" using hd_dropWhile[of is_space s] by auto
      then show ?thesis using a Cons by auto
    qed
    then show "list_all is_space s" by (simp add: dropWhile_eq_Nil_conv list_all_iff)
  next
    assume "list_all is_space s"
    then show "\<forall>x\<in>set (dropWhile is_space s). is_space x"
      by (auto simp: list_all_iff dest: set_dropWhileD)
  qed
  finally show ?thesis .
qed

lemma occurs_in_iff: "occurs_in sub s \<longleftrightarrow> (\<exists>p r. s = p @ sub @ r)"
proof (induction s)
  case Nil
  then show ?case by auto
next
  case (Cons c cs)
  show ?case
  proof
    assume "occurs_in sub (c # cs)"
    then consider "startswith (c # cs) sub" | "occurs_in sub cs" by auto
    then show "\<exists>p r. c # cs = p @ sub @ r"
    proof cases
      case 1
      then obtain r where "c # cs = sub @ r" by (auto simp: startswith_append)
      then have "c # cs = [] @ sub @ r" by simp
      then show ?thesis by blast
    next
      case 2
      then obtain p r where "cs = p @ sub @ r" using Cons.IH by auto
      then have "c # cs = (c # p) @ sub @ r" by simp
      then show ?thesis by blast
    qed
  next
    assume "\<exists>p r. c # cs = p @ sub @ r"
    then obtain p r where pr: "c # cs = p @ sub @ r" by auto
    show "occurs_in sub (c # cs)"
    proof (cases p)
      case Nil
      then have "startswith (c # cs) sub" using pr by (auto simp: startswith_append)
      then show ?thesis by simp
    next
      case (Cons a p')
      then have "cs = p' @ sub @ r" using pr by simp
      then have "occurs_in sub cs" using Cons.IH by blast
      then show ?thesis by simp
    qed
  qed
qed

lemma occurs_in_set: "occurs_in sub s \<Longrightarrow> set sub \<subseteq> set s"
  by (auto simp: occurs_in_iff)

lemma define_line_chars:
  assumes "DEFINE_RE_match l = Some p"
  shows "CHR ''*'' \<notin> set l" and "\<not> list_all is_space l"
proof -
  obtain g1 g2 where "p = (g1, g2)" by (cases p)
  then have "define_line_shape l g1 g2" using assms by (simp add: DEFINE_RE_match_sound)
  then obtain w0 w1 w2 w3 w4 x y where
    l: "l = w0 @ ''#'' @ w1 @ ''define'' @ w2 @ g1 @ w3 @ g2 @ w4"
    and g: "g1 = ''gl'' @ x" "g2 = ''glad_gl'' @ y"
    and sp: "list_all is_space (w0 @ w1 @ w2 @ w3 @ w4)"
    and idc: "list_all is_ident_char (x @ y)"
    unfolding define_line_shape_def by auto
  have "\<forall>c\<in>set l. is_space c \<or> is_ident_char c \<or> c = CHR ''#''"
    using sp idc unfolding l g by (auto simp: list_all_iff is_ident_char_def)
  then show "CHR ''*'' \<notin> set l" using ident_literals by blast
  show "\<not> list_all is_space l" unfolding l by (simp add: ident_literals)
qed

lemma define_line_not_comment:
  assumes "DEFINE_RE_match l = Some p"
  shows "\<not> comment_body l" and "\<not> occurs_in ''/**'' l"
proof -
  note c = define_line_chars[OF assms]
  have a: "\<not> occurs_in ''/**'' l" "\<not> occurs_in ''*/'' l"
    using c(1) by (auto dest: occurs_in_set)
  have "set (lstrip l) \<subseteq> set l" by (simp add: lstrip_def set_dropWhileD subsetI)
  then have s: "CHR ''*'' \<notin> set (lstrip l)" using c(1) by auto
  have b: "\<not> startswith (lstrip l) ''*''" "\<not> startswith (lstrip l) ''/*''"
    using s by (auto simp: startswith_append)
  show "\<not> comment_body l" using a b c(2) by (simp add: comment_body_def strip_empty_iff)
  show "\<not> occurs_in ''/**'' l" by (rule a)
qed

lemma skip_blank_up_spec:
  "skip_blank_up lines j \<le> j \<and> (j < 0 \<longrightarrow> skip_blank_up lines j = j) \<and>
   (0 \<le> j \<longrightarrow> -1 \<le> skip_blank_up lines j) \<and>
   (\<forall>t. skip_blank_up lines j < t \<and> t \<le> j \<longrightarrow> strip (lines ! nat t) = []) \<and>
   (0 \<le> skip_blank_up lines j \<longrightarrow> strip (lines ! nat (skip_blank_up lines j)) \<noteq> [])"
proof (induction lines j rule: skip_blank_up.induct)
  case (1 lines j)
  show ?case
  proof (cases "0 \<le> j \<and> strip (lines ! nat j) = []")
    case True
    then have e: "skip_blank_up lines j = skip_blank_up lines (j - 1)"
      by (simp add: skip_blank_up.simps[of lines j])
    note IH = "1.IH"[OF True]
    have "\<forall>t. skip_blank_up lines (j - 1) < t \<and> t \<le> j \<longrightarrow> strip (lines ! nat t) = []"
    proof (intro allI impI)
      fix t assume t: "skip_blank_up lines (j - 1) < t \<and> t \<le> j"
      show "strip (lines ! nat t) = []"
      proof (cases "t = j")
        case True
        then show ?thesis using \<open>0 \<le> j \<and> strip (lines ! nat j) = []\<close> by simp
      next
        case False
        then have "t \<le> j - 1" using t by simp
        then show ?thesis using IH t by blast
      qed
    qed
    moreover have "j - 1 < 0 \<longrightarrow> skip_blank_up lines (j - 1) = j - 1" using IH by blast
    ultimately show ?thesis unfolding e using IH True by auto
  next
    case False
    then have e: "skip_blank_up lines j = j"
      by (auto simp add: skip_blank_up.simps[of lines j])
    show ?thesis unfolding e using False by auto
  qed
qed

lemma scan_block_up_spec:
  "scan_block_up lines e k = Some (a, b) \<longleftrightarrow>
     b = e \<and> 0 \<le> a \<and> a \<le> k \<and> occurs_in ''/**'' (lines ! nat a) \<and>
     (\<forall>t. a < t \<and> t \<le> k \<longrightarrow> \<not> occurs_in ''/**'' (lines ! nat t) \<and> comment_body (lines ! nat t))"
proof (induction lines e k rule: scan_block_up.induct)
  case (1 lines e k)
  let ?R = "\<lambda>k. b = e \<and> 0 \<le> a \<and> a \<le> k \<and> occurs_in ''/**'' (lines ! nat a) \<and>
     (\<forall>t. a < t \<and> t \<le> k \<longrightarrow> \<not> occurs_in ''/**'' (lines ! nat t) \<and> comment_body (lines ! nat t))"
  show ?case
  proof (cases "0 \<le> k")
    case False
    then have "scan_block_up lines e k = None" by (simp add: scan_block_up.simps[of lines e k])
    then show ?thesis using False by auto
  next
    case k0: True
    show ?thesis
    proof (cases "occurs_in ''/**'' (lines ! nat k)")
      case True
      then have s: "scan_block_up lines e k = Some (k, e)"
        using k0 by (simp add: scan_block_up.simps[of lines e k])
      have "?R k \<longleftrightarrow> a = k \<and> b = e"
      proof
        assume r: "?R k"
        have "\<not> a < k"
        proof
          assume "a < k"
          then have "\<not> occurs_in ''/**'' (lines ! nat k)" using r by auto
          then show False using True by simp
        qed
        then show "a = k \<and> b = e" using r by auto
      next
        assume "a = k \<and> b = e"
        then show "?R k" using True k0 by auto
      qed
      then show ?thesis unfolding s by auto
    next
      case nostart: False
      show ?thesis
      proof (cases "comment_body (lines ! nat k)")
        case True
        then have s: "scan_block_up lines e k = scan_block_up lines e (k - 1)"
          using k0 nostart unfolding comment_body_def
          by (auto simp add: scan_block_up.simps[of lines e k])
        have IH: "scan_block_up lines e (k - 1) = Some (a, b) \<longleftrightarrow> ?R (k - 1)"
        proof (cases "strip (lines ! nat k) = []")
          case True
          show ?thesis using "1.IH"(1)[OF k0 nostart True] .
        next
          case False
          have c: "occurs_in ''*/'' (lines ! nat k) \<or> startswith (lstrip (lines ! nat k)) ''*''
                \<or> startswith (lstrip (lines ! nat k)) ''/*''"
            using \<open>comment_body (lines ! nat k)\<close> False by (auto simp: comment_body_def)
          show ?thesis using "1.IH"(2)[OF k0 nostart False c] .
        qed
        have "?R k \<longleftrightarrow> ?R (k - 1)"
        proof
          assume r: "?R k"
          have "a \<noteq> k" using r nostart by auto
          then have "a \<le> k - 1" using r by auto
          then show "?R (k - 1)" using r by auto
        next
          assume r: "?R (k - 1)"
          have "\<forall>t. a < t \<and> t \<le> k \<longrightarrow> \<not> occurs_in ''/**'' (lines ! nat t) \<and> comment_body (lines ! nat t)"
          proof (intro allI impI)
            fix t assume t: "a < t \<and> t \<le> k"
            show "\<not> occurs_in ''/**'' (lines ! nat t) \<and> comment_body (lines ! nat t)"
            proof (cases "t = k")
              case True
              then show ?thesis using nostart \<open>comment_body (lines ! nat k)\<close> by simp
            next
              case False
              then have "t \<le> k - 1" using t by simp
              then show ?thesis using r t by blast
            qed
          qed
          then show "?R k" using r by auto
        qed
        then show ?thesis unfolding s using IH by simp
      next
        case False
        then have s: "scan_block_up lines e k = None"
          using k0 nostart unfolding comment_body_def
          by (auto simp add: scan_block_up.simps[of lines e k])
        have "\<not> ?R k"
        proof
          assume r: "?R k"
          have "a \<noteq> k" using r nostart by auto
          then have "a < k \<and> k \<le> k" using r by auto
          then have "comment_body (lines ! nat k)" using r by blast
          then show False using False by simp
        qed
        then show ?thesis unfolding s by simp
      qed
    qed
  qed
qed

lemma occurs_not_blank:
  assumes "occurs_in sub l" and "c \<in> set sub" and "\<not> is_space c"
  shows "strip l \<noteq> []"
proof -
  have "c \<in> set l" using assms(1,2) occurs_in_set by blast
  then have "\<not> list_all is_space l" using assms(3) by (auto simp: list_all_iff)
  then show ?thesis by (simp add: strip_empty_iff)
qed

lemma close_not_blank:
  assumes "occurs_in ''*/'' l"
  shows "strip l \<noteq> []"
proof -
  have "CHR ''*'' \<in> set ''*/''" by simp
  moreover have "\<not> is_space CHR ''*''" by (simp add: is_space_def)
  ultimately show ?thesis using assms by (rule occurs_not_blank[rotated])
qed

lemma find_docblock_above_total:
  "i \<le> int (length lines) \<Longrightarrow> \<exists>r. find_docblock_above lines i = Inr r"
  by (simp add: find_docblock_above_def Let_def)

lemma find_docblock_above_iff:
  assumes "i \<le> int (length lines)"
  shows "find_docblock_above lines i = Inr (Some (a, b)) \<longleftrightarrow> block_above lines i a b"
proof -
  define j where "j = skip_blank_up lines (i - 1)"
  note sb = skip_blank_up_spec[of lines "i - 1", folded j_def]
  have blank_above: "strip (lines ! nat t) = []" if "j < t" "t < i" for t
    using sb that by auto
  have last_is_j: "b = j" if "block_above lines i a b"
  proof -
    have nb: "strip (lines ! nat b) \<noteq> []"
      using that by (auto simp: block_above_def close_not_blank)
    have "\<not> j < b" using blank_above[of b] nb that by (auto simp: block_above_def)
    moreover have "\<not> b < j"
    proof
      assume bj: "b < j"
      have "0 \<le> j" using bj that by (auto simp: block_above_def)
      then have "strip (lines ! nat j) \<noteq> []" using sb by blast
      moreover have "j < i" using sb by auto
      ultimately show False using that bj by (auto simp: block_above_def)
    qed
    ultimately show ?thesis by simp
  qed
  show ?thesis
  proof (cases "j < 0")
    case True
    then have "find_docblock_above lines i = Inr None"
      using assms by (simp add: find_docblock_above_def Let_def j_def)
    moreover have "\<not> block_above lines i a b"
    proof
      assume ba: "block_above lines i a b"
      then have "b = j" by (rule last_is_j)
      then show False using True ba by (auto simp: block_above_def)
    qed
    ultimately show ?thesis by simp
  next
    case j0: False
    show ?thesis
    proof (cases "occurs_in ''*/'' (lines ! nat j)")
      case False
      then have "find_docblock_above lines i = Inr None"
        using assms j0 by (simp add: find_docblock_above_def Let_def j_def)
      moreover have "\<not> block_above lines i a b"
      proof
        assume ba: "block_above lines i a b"
        then have "b = j" by (rule last_is_j)
        then show False using False ba by (auto simp: block_above_def)
      qed
      ultimately show ?thesis by simp
    next
      case True
      then have e: "find_docblock_above lines i = Inr (scan_block_up lines j j)"
        using assms j0 by (simp add: find_docblock_above_def Let_def j_def)
      have ji: "j < i" using sb by auto
      have "scan_block_up lines j j = Some (a, b) \<longleftrightarrow> block_above lines i a b"
      proof
        assume "scan_block_up lines j j = Some (a, b)"
        then have s: "b = j" "0 \<le> a" "a \<le> j" "occurs_in ''/**'' (lines ! nat a)"
          "\<forall>t. a < t \<and> t \<le> j \<longrightarrow> \<not> occurs_in ''/**'' (lines ! nat t) \<and> comment_body (lines ! nat t)"
          by (simp_all add: scan_block_up_spec)
        show "block_above lines i a b"
          unfolding block_above_def using s True ji blank_above by auto
      next
        assume ba: "block_above lines i a b"
        then have "b = j" by (rule last_is_j)
        then show "scan_block_up lines j j = Some (a, b)"
          using ba by (auto simp: scan_block_up_spec block_above_def)
      qed
      then show ?thesis unfolding e by simp
    qed
  qed
qed

lemma marked_lines_iff:
  "t \<in> marked_lines lines \<longleftrightarrow>
     (\<exists>i a b. i < length lines \<and> DEFINE_RE_match (lines ! i) \<noteq> None \<and>
        block_above lines (int i) a b \<and> a \<le> t \<and> t \<le> b)"
proof -
  have "find_docblock_above lines (int i) = Inr (Some (a, b)) \<longleftrightarrow> block_above lines (int i) a b"
    if "i < length lines" for i a b
    using that by (intro find_docblock_above_iff) simp
  then have "(\<exists>i a b. i < length lines \<and> DEFINE_RE_match (lines ! i) \<noteq> None \<and>
          find_docblock_above lines (int i) = Inr (Some (a, b)) \<and> a \<le> t \<and> t \<le> b) \<longleftrightarrow>
     (\<exists>i a b. i < length lines \<and> DEFINE_RE_match (lines ! i) \<noteq> None \<and>
        block_above lines (int i) a b \<and> a \<le> t \<and> t \<le> b)"
    by blast
  then show ?thesis unfolding marked_lines_def by simp
qed

lemma prescan_spec:
  "prescan lines i skip =
     Inr (skip \<union> {t. \<exists>i' a b. i \<le> i' \<and> i' < length lines \<and> DEFINE_RE_match (lines ! i') \<noteq> None \<and>
           find_docblock_above lines (int i') = Inr (Some (a, b)) \<and> a \<le> t \<and> t \<le> b})"
proof (induction lines i skip rule: prescan.induct)
  case (1 lines i skip)
  let ?M = "\<lambda>i. {t. \<exists>i' a b. i \<le> i' \<and> i' < length lines \<and> DEFINE_RE_match (lines ! i') \<noteq> None \<and>
           find_docblock_above lines (int i') = Inr (Some (a, b)) \<and> a \<le> t \<and> t \<le> b}"
  show ?case
  proof (cases "i < length lines")
    case False
    then have "?M i = {}" by auto
    moreover have "prescan lines i skip = Inr skip"
      using False by (simp add: prescan.simps[of lines i skip])
    ultimately show ?thesis by (simp only: Un_empty_right)
  next
    case il: True
    obtain r where r: "find_docblock_above lines (int i) = Inr r"
      using find_docblock_above_total[of "int i" lines] il by auto
    define B where "B = (if DEFINE_RE_match (lines ! i) \<noteq> None then
        (case r of None \<Rightarrow> {} | Some (a, b) \<Rightarrow> {a..b}) else {})"
    have split: "?M i = B \<union> ?M (Suc i)"
    proof (rule set_eqI)
      fix t
      have B: "t \<in> B \<longleftrightarrow> (\<exists>a b. DEFINE_RE_match (lines ! i) \<noteq> None \<and>
           find_docblock_above lines (int i) = Inr (Some (a, b)) \<and> a \<le> t \<and> t \<le> b)"
        unfolding B_def r by (cases r) auto
      show "t \<in> ?M i \<longleftrightarrow> t \<in> B \<union> ?M (Suc i)"
      proof
        assume "t \<in> ?M i"
        then obtain i' a b where h: "i \<le> i'" "i' < length lines" "DEFINE_RE_match (lines ! i') \<noteq> None"
           "find_docblock_above lines (int i') = Inr (Some (a, b))" "a \<le> t" "t \<le> b"
          by blast
        show "t \<in> B \<union> ?M (Suc i)"
        proof (cases "i' = i")
          case True
          then have "t \<in> B" using h B by blast
          then show ?thesis by simp
        next
          case False
          then have "Suc i \<le> i'" using h(1) by simp
          then have "t \<in> ?M (Suc i)" using h by blast
          then show ?thesis by simp
        qed
      next
        assume "t \<in> B \<union> ?M (Suc i)"
        then consider "t \<in> B" | "t \<in> ?M (Suc i)" by blast
        then show "t \<in> ?M i"
        proof cases
          case 1
          then obtain a b where "DEFINE_RE_match (lines ! i) \<noteq> None"
            "find_docblock_above lines (int i) = Inr (Some (a, b))" "a \<le> t" "t \<le> b"
            using B by blast
          then show ?thesis using il by blast
        next
          case 2
          then obtain i' a b where h: "Suc i \<le> i'" "i' < length lines" "DEFINE_RE_match (lines ! i') \<noteq> None"
           "find_docblock_above lines (int i') = Inr (Some (a, b))" "a \<le> t" "t \<le> b"
            by blast
          have "i \<le> i'" using h(1) by simp
          then show ?thesis using h by blast
        qed
      qed
    qed
    show ?thesis
    proof (cases "DEFINE_RE_match (lines ! i) \<noteq> None")
      case False
      then have "prescan lines i skip = prescan lines (Suc i) skip"
        using il by (simp add: prescan.simps[of lines i skip])
      moreover have "B = {}" using False by (simp add: B_def)
      ultimately show ?thesis using "1.IH"(3)[OF il False] split by simp
    next
      case d: True
      show ?thesis
      proof (cases r)
        case None
        then have "prescan lines i skip = prescan lines (Suc i) skip"
          using il d r by (simp add: prescan.simps[of lines i skip])
        moreover have "B = {}" using None by (simp add: B_def)
        ultimately show ?thesis using "1.IH"(1)[OF il d] r None split by simp
      next
        case (Some ab)
        obtain a b where ab: "ab = (a, b)" by (cases ab)
        have "prescan lines i skip = prescan lines (Suc i) (skip \<union> {a..b})"
          using il d r Some ab by (simp add: prescan.simps[of lines i skip])
        moreover have "prescan lines (Suc i) (skip \<union> {a..b}) = Inr ((skip \<union> {a..b}) \<union> ?M (Suc i))"
          using "1.IH"(2)[OF il d r Some] ab by simp
        moreover have "B = {a..b}" using d Some ab by (simp add: B_def)
        ultimately show ?thesis using split by (simp add: Un_assoc)
      qed
    qed
  qed
qed

lemma prescan_marked: "prescan lines 0 {} = Inr (marked_lines lines)"
  by (simp add: prescan_spec marked_lines_def)

section \<open>The two passes\<close>

lemma main_pass_pieces:
  "main_pass build ls skip i out =
     out @ concat (map (\<lambda>k. if int k \<in> skip then [] else line_output build (ls ! k)) [i..<length ls])"
proof (induction build ls skip i out rule: main_pass.induct)
  case (1 build ls skip i out)
  show ?case
  proof (cases "i < length ls")
    case False
    then show ?thesis by (simp add: main_pass.simps[of build ls skip i out])
  next
    case il: True
    then have u: "[i..<length ls] = i # [Suc i..<length ls]" by (simp add: upt_conv_Cons)
    show ?thesis
    proof (cases "int i \<in> skip")
      case True
      then have "main_pass build ls skip i out = main_pass build ls skip (Suc i) out"
        using il by (simp add: main_pass.simps[of build ls skip i out])
      then show ?thesis using "1.IH"(1)[OF il True] True u by simp
    next
      case ns: False
      show ?thesis
      proof (cases "DEFINE_RE_match (ls ! i)")
        case None
        then have "main_pass build ls skip i out = main_pass build ls skip (Suc i) (out @ [ls ! i])"
          using il ns by (simp add: main_pass.simps[of build ls skip i out])
        then show ?thesis using "1.IH"(2)[OF il ns None] None ns u by (simp add: line_output_def)
      next
        case (Some p)
        obtain g g2 where p: "p = (g, g2)" by (cases p)
        show ?thesis
        proof (cases "build g")
          case None
          then have "main_pass build ls skip i out = main_pass build ls skip (Suc i) (out @ [ls ! i])"
            using il ns Some p by (simp add: main_pass.simps[of build ls skip i out])
          then show ?thesis using "1.IH"(3)[OF il ns Some p[symmetric] None] None Some p ns u
            by (simp add: line_output_def)
        next
          case (Some doc)
          note bd = Some
          show ?thesis
          proof (cases "doc = []")
            case True
            then have "main_pass build ls skip i out = main_pass build ls skip (Suc i) (out @ [ls ! i])"
              using il ns \<open>DEFINE_RE_match (ls ! i) = Some p\<close> p bd
              by (simp add: main_pass.simps[of build ls skip i out])
            then show ?thesis
              using "1.IH"(5)[OF il ns \<open>DEFINE_RE_match (ls ! i) = Some p\<close> p[symmetric] bd] True
                \<open>DEFINE_RE_match (ls ! i) = Some p\<close> p bd ns u
              by (simp add: line_output_def)
          next
            case False
            then have "main_pass build ls skip i out
                = main_pass build ls skip (Suc i) (out @ [doc] @ [ls ! i])"
              using il ns \<open>DEFINE_RE_match (ls ! i) = Some p\<close> p bd
              by (simp add: main_pass.simps[of build ls skip i out])
            then show ?thesis
              using "1.IH"(4)[OF il ns \<open>DEFINE_RE_match (ls ! i) = Some p\<close> p[symmetric] bd] False
                \<open>DEFINE_RE_match (ls ! i) = Some p\<close> p bd ns u
              by (simp add: line_output_def)
          qed
        qed
      qed
    qed
  qed
qed

lemma process_lines_pieces:
  "process_lines build ls =
     Inr (concat (map (\<lambda>k. if int k \<in> marked_lines ls then [] else line_output build (ls ! k))
            [0..<length ls]))"
  by (simp add: process_lines_def prescan_marked main_pass_pieces)

lemma block_above_lines:
  assumes "block_above ls i a b" and "a \<le> t" and "t \<le> b"
  shows "occurs_in ''/**'' (ls ! nat t) \<or> comment_body (ls ! nat t)"
proof (cases "t = a")
  case True
  then show ?thesis using assms by (simp add: block_above_def)
next
  case False
  then have "a < t \<and> t \<le> b" using assms by simp
  then show ?thesis using assms(1) unfolding block_above_def by blast
qed

lemma macro_line_not_marked:
  assumes "i < length ls" and "DEFINE_RE_match (ls ! i) \<noteq> None"
  shows "int i \<notin> marked_lines ls"
proof
  assume "int i \<in> marked_lines ls"
  then obtain i' a b where h: "block_above ls (int i') a b" "a \<le> int i" "int i \<le> b"
    unfolding marked_lines_iff by blast
  have "0 \<le> a" using h(1) by (simp add: block_above_def)
  from block_above_lines[OF h]
  have "occurs_in ''/**'' (ls ! i) \<or> comment_body (ls ! i)" by simp
  moreover obtain p where "DEFINE_RE_match (ls ! i) = Some p" using assms(2) by auto
  ultimately show False using define_line_not_comment by blast
qed

section \<open>Locality of the search\<close>

lemma block_above_transfer:
  assumes eq: "\<And>t. 0 \<le> t \<Longrightarrow> t < i \<Longrightarrow> ls' ! nat (t + k) = ls ! nat t"
    and ba: "block_above ls i a b" and k0: "0 \<le> k"
  shows "block_above ls' (i + k) (a + k) (b + k)"
proof -
  from ba have bnd: "0 \<le> a" "a \<le> b" "b < i"
    and bl: "\<And>t. b < t \<Longrightarrow> t < i \<Longrightarrow> strip (ls ! nat t) = []"
    and cl: "occurs_in ''*/'' (ls ! nat b)" and op: "occurs_in ''/**'' (ls ! nat a)"
    and bd: "\<And>t. a < t \<Longrightarrow> t \<le> b \<Longrightarrow> \<not> occurs_in ''/**'' (ls ! nat t) \<and> comment_body (ls ! nat t)"
    unfolding block_above_def by blast+
  have e: "ls' ! nat u = ls ! nat (u - k)" if "k \<le> u" "u < i + k" for u
    using eq[of "u - k"] that by simp
  show ?thesis
    unfolding block_above_def
  proof (intro conjI allI impI)
    show "0 \<le> a + k" "a + k \<le> b + k" "b + k < i + k" using bnd k0 by simp_all
    show "occurs_in ''*/'' (ls' ! nat (b + k))" using cl eq[of b] bnd by simp
    show "occurs_in ''/**'' (ls' ! nat (a + k))" using op eq[of a] bnd by simp
  next
    fix t assume t: "b + k < t \<and> t < i + k"
    have "k \<le> t" using t bnd by simp
    then have "ls' ! nat t = ls ! nat (t - k)" using e t by simp
    moreover have "strip (ls ! nat (t - k)) = []" using bl[of "t - k"] t by simp
    ultimately show "strip (ls' ! nat t) = []" by simp
  next
    fix t assume t: "a + k < t \<and> t \<le> b + k"
    have "k \<le> t" "t < i + k" using t bnd by simp_all
    then have "ls' ! nat t = ls ! nat (t - k)" using e by simp
    moreover have "\<not> occurs_in ''/**'' (ls ! nat (t - k)) \<and> comment_body (ls ! nat (t - k))"
      using bd[of "t - k"] t by simp
    ultimately show "\<not> occurs_in ''/**'' (ls' ! nat t)" "comment_body (ls' ! nat t)" by simp_all
  qed
qed

lemma block_above_transfer_back:
  assumes eq: "\<And>t. 0 \<le> t \<Longrightarrow> t < i \<Longrightarrow> ls' ! nat (t + k) = ls ! nat t"
    and ba: "block_above ls' (i + k) a b" and k: "0 \<le> k" and ak: "k \<le> a"
  shows "block_above ls i (a - k) (b - k)"
proof -
  from ba have bnd: "0 \<le> a" "a \<le> b" "b < i + k"
    and bl: "\<And>t. b < t \<Longrightarrow> t < i + k \<Longrightarrow> strip (ls' ! nat t) = []"
    and cl: "occurs_in ''*/'' (ls' ! nat b)" and op: "occurs_in ''/**'' (ls' ! nat a)"
    and bd: "\<And>t. a < t \<Longrightarrow> t \<le> b \<Longrightarrow> \<not> occurs_in ''/**'' (ls' ! nat t) \<and> comment_body (ls' ! nat t)"
    unfolding block_above_def by blast+
  have e: "ls ! nat u = ls' ! nat (u + k)" if "0 \<le> u" "u < i" for u
    using eq[of u] that by simp
  show ?thesis
    unfolding block_above_def
  proof (intro conjI allI impI)
    show "0 \<le> a - k" "a - k \<le> b - k" "b - k < i" using bnd ak by simp_all
    show "occurs_in ''*/'' (ls ! nat (b - k))" using cl e[of "b - k"] bnd ak by simp
    show "occurs_in ''/**'' (ls ! nat (a - k))" using op e[of "a - k"] bnd ak by simp
  next
    fix t assume t: "b - k < t \<and> t < i"
    have "0 \<le> t" using t bnd ak by simp
    then have "ls ! nat t = ls' ! nat (t + k)" using e t by simp
    moreover have "strip (ls' ! nat (t + k)) = []" using bl[of "t + k"] t by simp
    ultimately show "strip (ls ! nat t) = []" by simp
  next
    fix t assume t: "a - k < t \<and> t \<le> b - k"
    have "0 \<le> t" "t < i" using t bnd ak by simp_all
    then have "ls ! nat t = ls' ! nat (t + k)" using e by simp
    moreover have "\<not> occurs_in ''/**'' (ls' ! nat (t + k)) \<and> comment_body (ls' ! nat (t + k))"
      using bd[of "t + k"] t by simp
    ultimately show "\<not> occurs_in ''/**'' (ls ! nat t)" "comment_body (ls ! nat t)" by simp_all
  qed
qed

lemma block_above_prefix:
  assumes "i \<le> int (length xs)"
  shows "block_above (xs @ ys) i a b \<longleftrightarrow> block_above xs i a b"
proof
  assume h: "block_above (xs @ ys) i a b"
  have "block_above xs i (a - 0) (b - 0)"
  proof (rule block_above_transfer_back[where ls' = "xs @ ys" and k = 0])
    show "(xs @ ys) ! nat (t + 0) = xs ! nat t" if "0 \<le> t" "t < i" for t
    proof -
      have "nat t < length xs" using that assms by linarith
      then show ?thesis by (simp add: nth_append)
    qed
    show "block_above (xs @ ys) (i + 0) a b" using h by simp
    show "(0::int) \<le> 0" by simp
    show "0 \<le> a" using h by (simp add: block_above_def)
  qed
  then show "block_above xs i a b" by simp
next
  assume h: "block_above xs i a b"
  have "block_above (xs @ ys) (i + 0) (a + 0) (b + 0)"
  proof (rule block_above_transfer[where ls = xs])
    show "(xs @ ys) ! nat (t + 0) = xs ! nat t" if "0 \<le> t" "t < i" for t
    proof -
      have "nat t < length xs" using that assms by linarith
      then show ?thesis by (simp add: nth_append)
    qed
    show "block_above xs i a b" by (rule h)
    show "(0::int) \<le> 0" by simp
  qed
  then show "block_above (xs @ ys) i a b" by simp
qed

lemma block_above_covers:
  assumes "block_above ls i a b" and "a \<le> t" and "t < i"
  shows "occurs_in ''/**'' (ls ! nat t) \<or> comment_body (ls ! nat t)"
proof (cases "t \<le> b")
  case True
  then show ?thesis using block_above_lines[OF assms(1,2)] by simp
next
  case False
  then have "strip (ls ! nat t) = []" using assms by (simp add: block_above_def)
  then show ?thesis by (simp add: comment_body_def)
qed

lemma block_above_after_barrier:
  assumes bar: "\<not> comment_body d" "\<not> occurs_in ''/**'' d" and i0: "0 \<le> i"
  shows "block_above (pre @ d # rest) (i + (int (length pre) + 1)) a b \<longleftrightarrow>
         int (length pre) + 1 \<le> a \<and>
         block_above rest i (a - (int (length pre) + 1)) (b - (int (length pre) + 1))"
proof -
  let ?k = "int (length pre) + 1"
  have eq: "(pre @ d # rest) ! nat (t + ?k) = rest ! nat t" if "0 \<le> t" for t
  proof -
    have "nat (t + ?k) = length pre + Suc (nat t)" using that by simp
    then show ?thesis by (simp add: nth_append)
  qed
  show ?thesis
  proof
    assume h: "block_above (pre @ d # rest) (i + ?k) a b"
    have ak: "?k \<le> a"
    proof (rule ccontr)
      assume "\<not> ?k \<le> a"
      then have "a \<le> int (length pre)" by simp
      moreover have "int (length pre) < i + ?k" using i0 by simp
      ultimately have "occurs_in ''/**'' ((pre @ d # rest) ! nat (int (length pre)))
          \<or> comment_body ((pre @ d # rest) ! nat (int (length pre)))"
        using block_above_covers[OF h] by blast
      then show False using bar by simp
    qed
    have "block_above rest i (a - ?k) (b - ?k)"
      by (rule block_above_transfer_back[where ls' = "pre @ d # rest"]) (use eq h ak in simp_all)
    then show "?k \<le> a \<and> block_above rest i (a - ?k) (b - ?k)" using ak by simp
  next
    assume h: "?k \<le> a \<and> block_above rest i (a - ?k) (b - ?k)"
    have "block_above (pre @ d # rest) (i + ?k) ((a - ?k) + ?k) ((b - ?k) + ?k)"
      by (rule block_above_transfer[where ls = rest]) (use eq h in simp_all)
    then show "block_above (pre @ d # rest) (i + ?k) a b" by simp
  qed
qed

subsection \<open>The output across a macro line\<close>

lemma process_lines_rewrite: "process_lines build ls = Inr (rewrite_lines build ls)"
  by (simp add: process_lines_pieces rewrite_lines_def)

lemma marked_lines_bounds:
  assumes "t \<in> marked_lines ls"
  shows "0 \<le> t" and "t + 1 < int (length ls)"
proof -
  from assms obtain i a b where h: "i < length ls" "block_above ls (int i) a b" "a \<le> t" "t \<le> b"
    unfolding marked_lines_iff by blast
  show "0 \<le> t" using h by (simp add: block_above_def)
  show "t + 1 < int (length ls)" using h by (simp add: block_above_def)
qed

lemma marked_lines_split:
  assumes d: "DEFINE_RE_match d \<noteq> None"
  shows "t \<in> marked_lines (pre @ d # rest) \<longleftrightarrow>
         t \<in> marked_lines (pre @ [d]) \<or>
         (int (length pre) + 1 \<le> t \<and> t - (int (length pre) + 1) \<in> marked_lines rest)"
proof -
  let ?p = "length pre"
  let ?k = "int (length pre) + 1"
  let ?w = "pre @ d # rest"
  obtain q where q: "DEFINE_RE_match d = Some q" using d by auto
  have bar: "\<not> comment_body d" "\<not> occurs_in ''/**'' d"
    using define_line_not_comment[OF q] by simp_all
  have w: "?w = (pre @ [d]) @ rest" by simp
  have low: "block_above ?w (int i) a b \<longleftrightarrow> block_above (pre @ [d]) (int i) a b"
    if "i \<le> ?p" for i a b
    unfolding w by (rule block_above_prefix) (use that in simp)
  have nth_low: "?w ! i = (pre @ [d]) ! i" if "i \<le> ?p" for i
    using that by (simp add: nth_append)
  have high: "block_above ?w (int (i + Suc ?p)) a b \<longleftrightarrow>
      ?k \<le> a \<and> block_above rest (int i) (a - ?k) (b - ?k)" for i a b
  proof -
    have e: "int (i + Suc ?p) = int i + ?k" by simp
    show ?thesis
      unfolding e by (rule block_above_after_barrier[OF bar]) simp
  qed
  have nth_high: "?w ! (i + Suc ?p) = rest ! i" for i
    by (simp add: nth_append)
  show ?thesis
  proof
    assume "t \<in> marked_lines ?w"
    then obtain i a b where h: "i < length ?w" "DEFINE_RE_match (?w ! i) \<noteq> None"
      "block_above ?w (int i) a b" "a \<le> t" "t \<le> b"
      unfolding marked_lines_iff by blast
    show "t \<in> marked_lines (pre @ [d]) \<or> (?k \<le> t \<and> t - ?k \<in> marked_lines rest)"
    proof (cases "i \<le> ?p")
      case True
      have "i < length (pre @ [d])" using True by simp
      moreover have "DEFINE_RE_match ((pre @ [d]) ! i) \<noteq> None" using h(2) nth_low[OF True] by simp
      moreover have "block_above (pre @ [d]) (int i) a b" using h(3) low[OF True] by simp
      ultimately have "t \<in> marked_lines (pre @ [d])"
        unfolding marked_lines_iff using h(4,5) by blast
      then show ?thesis by simp
    next
      case False
      then have "Suc ?p \<le> i" by simp
      then have "i = (i - Suc ?p) + Suc ?p" by simp
      then obtain j where j: "i = j + Suc ?p" ..
      have jl: "j < length rest" using h(1) j by simp
      have dj: "DEFINE_RE_match (rest ! j) \<noteq> None" using h(2) nth_high[of j] j by simp
      have bj: "?k \<le> a" "block_above rest (int j) (a - ?k) (b - ?k)"
        using h(3) high[of j a b] j by simp_all
      have "t - ?k \<in> marked_lines rest"
        unfolding marked_lines_iff using jl dj bj(2) h(4,5)
        by (intro exI[of _ j] exI[of _ "a - ?k"] exI[of _ "b - ?k"]) simp
      then show ?thesis using bj(1) h(4) by simp
    qed
  next
    assume "t \<in> marked_lines (pre @ [d]) \<or> (?k \<le> t \<and> t - ?k \<in> marked_lines rest)"
    then consider (lo) "t \<in> marked_lines (pre @ [d])" | (hi) "?k \<le> t" "t - ?k \<in> marked_lines rest"
      by blast
    then show "t \<in> marked_lines ?w"
    proof cases
      case lo
      then obtain i a b where h: "i < length (pre @ [d])" "DEFINE_RE_match ((pre @ [d]) ! i) \<noteq> None"
        "block_above (pre @ [d]) (int i) a b" "a \<le> t" "t \<le> b"
        unfolding marked_lines_iff by blast
      have il: "i \<le> ?p" using h(1) by simp
      have "i < length ?w" using il by simp
      moreover have "DEFINE_RE_match (?w ! i) \<noteq> None" using h(2) nth_low[OF il] by simp
      moreover have "block_above ?w (int i) a b" using h(3) low[OF il] by simp
      ultimately show ?thesis unfolding marked_lines_iff using h(4,5) by blast
    next
      case hi
      then obtain j a b where h: "j < length rest" "DEFINE_RE_match (rest ! j) \<noteq> None"
        "block_above rest (int j) a b" "a \<le> t - ?k" "t - ?k \<le> b"
        unfolding marked_lines_iff by blast
      have "j + Suc ?p < length ?w" using h(1) by simp
      moreover have "DEFINE_RE_match (?w ! (j + Suc ?p)) \<noteq> None" using h(2) nth_high[of j] by simp
      moreover have "block_above ?w (int (j + Suc ?p)) (a + ?k) (b + ?k)"
        using h(3) high[of j "a + ?k" "b + ?k"] by (simp add: block_above_def)
      moreover have "a + ?k \<le> t" "t \<le> b + ?k" using h(4,5) by simp_all
      ultimately show ?thesis unfolding marked_lines_iff by blast
    qed
  qed
qed

lemma rewrite_lines_split:
  assumes d: "DEFINE_RE_match d \<noteq> None"
  shows "rewrite_lines build (pre @ d # rest)
       = rewrite_lines build (pre @ [d]) @ rewrite_lines build rest"
proof -
  let ?p = "length pre"
  let ?w = "pre @ d # rest"
  let ?piece = "\<lambda>ls k. if int k \<in> marked_lines ls then [] else line_output build (ls ! k)"
  have up: "[0..<length ?w] = [0..<Suc ?p] @ map (\<lambda>j. j + Suc ?p) [0..<length rest]"
  proof -
    have l: "length ?w = Suc ?p + length rest" by simp
    have a: "[0..<Suc ?p + length rest] = [0..<Suc ?p] @ [Suc ?p..<Suc ?p + length rest]"
      by (rule upt_add_eq_append) simp
    have b: "map (\<lambda>j. j + Suc ?p) [0..<length rest] = [Suc ?p..<length rest + Suc ?p]"
      by (rule map_add_upt)
    have c: "length rest + Suc ?p = Suc ?p + length rest" by simp
    show ?thesis by (simp only: l a b c)
  qed
  have lo: "?piece ?w k = ?piece (pre @ [d]) k" if "k < Suc ?p" for k
  proof -
    have "int k \<in> marked_lines ?w \<longleftrightarrow> int k \<in> marked_lines (pre @ [d])"
      using marked_lines_split[OF d, of "int k" pre rest] that by auto
    moreover have "?w ! k = (pre @ [d]) ! k" using that by (simp add: nth_append)
    ultimately show ?thesis by simp
  qed
  have hi: "?piece ?w (j + Suc ?p) = ?piece rest j" for j
  proof -
    have "int (j + Suc ?p) \<notin> marked_lines (pre @ [d])"
      using marked_lines_bounds(2)[of "int (j + Suc ?p)" "pre @ [d]"] by auto
    then have "int (j + Suc ?p) \<in> marked_lines ?w \<longleftrightarrow> int j \<in> marked_lines rest"
      using marked_lines_split[OF d, of "int (j + Suc ?p)" pre rest] by simp
    moreover have "?w ! (j + Suc ?p) = rest ! j" by (simp add: nth_append)
    ultimately show ?thesis by simp
  qed
  have "rewrite_lines build ?w
      = concat (map (?piece ?w) [0..<Suc ?p]) @ concat (map (\<lambda>j. ?piece ?w (j + Suc ?p)) [0..<length rest])"
    unfolding rewrite_lines_def up by (simp only: map_append concat_append map_map comp_def)
  also have "concat (map (?piece ?w) [0..<Suc ?p]) = concat (map (?piece (pre @ [d])) [0..<Suc ?p])"
  proof (rule arg_cong[where f = concat], rule map_cong[OF refl])
    fix k assume "k \<in> set [0..<Suc ?p]"
    then have "k < Suc ?p" by (simp only: set_upt atLeastLessThan_iff)
    then show "?piece ?w k = ?piece (pre @ [d]) k" by (rule lo)
  qed
  also have "concat (map (\<lambda>j. ?piece ?w (j + Suc ?p)) [0..<length rest])
      = concat (map (?piece rest) [0..<length rest])"
    by (simp only: hi)
  finally show ?thesis by (simp only: rewrite_lines_def length_append_singleton)
qed

lemma rewrite_lines_macro_last:
  assumes d: "DEFINE_RE_match d \<noteq> None"
  shows "rewrite_lines build (pre @ [d]) =
           concat (map (\<lambda>k. if int k \<in> marked_lines (pre @ [d]) then [] else line_output build (pre ! k))
                     [0..<length pre])
           @ line_output build d"
proof -
  let ?f = "\<lambda>k. if int k \<in> marked_lines (pre @ [d]) then [] else line_output build ((pre @ [d]) ! k)"
  let ?g = "\<lambda>k. if int k \<in> marked_lines (pre @ [d]) then [] else line_output build (pre ! k)"
  have m: "int (length pre) \<notin> marked_lines (pre @ [d])"
    using macro_line_not_marked[of "length pre" "pre @ [d]"] d by simp
  have e: "map ?f [0..<length pre] = map ?g [0..<length pre]"
    by (rule map_cong[OF refl]) (simp add: nth_append)
  have l: "?f (length pre) = line_output build d" using m by simp
  have "rewrite_lines build (pre @ [d]) = concat (map ?f ([0..<length pre] @ [length pre]))"
    unfolding rewrite_lines_def by (simp only: length_append_singleton upt_Suc_append le0)
  also have "\<dots> = concat (map ?f [0..<length pre]) @ ?f (length pre)"
    by (simp only: map_append concat_append list.map concat.simps append_Nil2)
  finally show ?thesis unfolding e l .
qed

subsection \<open>Lines of a text and of the text written\<close>

lemma splitlines_Nil: "splitlines [] = []"
  by (simp add: splitlines.simps)

lemma splitlines_clean:
  "l \<in> set (splitlines s) \<Longrightarrow> \<forall>c\<in>set l. \<not> is_linebreak c"
proof (induction s arbitrary: l rule: splitlines.induct)
  case (1 s)
  show ?case
  proof (cases "s = []")
    case True
    then show ?thesis using "1.prems" by (simp add: splitlines_Nil)
  next
    case False
    from "1.prems" False
    have "l = takeWhile (\<lambda>c. \<not> is_linebreak c) s \<or>
          l \<in> set (splitlines (drop_terminator (dropWhile (\<lambda>c. \<not> is_linebreak c) s)))"
      by (simp add: splitlines.simps[of s])
    then show ?thesis
    proof
      assume "l = takeWhile (\<lambda>c. \<not> is_linebreak c) s"
      then show ?thesis by (auto dest: set_takeWhileD)
    next
      assume "l \<in> set (splitlines (drop_terminator (dropWhile (\<lambda>c. \<not> is_linebreak c) s)))"
      then show ?thesis using "1.IH"[OF False] by blast
    qed
  qed
qed

lemma takeWhile_stop: "\<not> P y \<Longrightarrow> takeWhile P (xs @ y # ys) = takeWhile P xs"
  by (induction xs) simp_all

lemma dropWhile_stop: "\<not> P y \<Longrightarrow> dropWhile P (xs @ y # ys) = dropWhile P xs @ y # ys"
  by (induction xs) simp_all

lemma LF_linebreak: "is_linebreak (CHR 0x0A)"
  by (simp add: is_linebreak_def)

lemma splitlines_single:
  assumes "\<forall>c\<in>set l. \<not> is_linebreak c"
  shows "splitlines (l @ [CHR 0x0A]) = [l]"
proof -
  have t: "takeWhile (\<lambda>c. \<not> is_linebreak c) (l @ [CHR 0x0A]) = l"
    using assms by (simp add: takeWhile_stop LF_linebreak)
  have d: "dropWhile (\<lambda>c. \<not> is_linebreak c) (l @ [CHR 0x0A]) = [CHR 0x0A]"
    using assms by (simp add: dropWhile_stop LF_linebreak)
  show ?thesis
    by (simp add: splitlines.simps[of "l @ [CHR 0x0A]"] t d splitlines_Nil)
qed

lemma drop_terminator_append:
  "r \<noteq> [] \<Longrightarrow> r \<noteq> [CHR 0x0D] \<Longrightarrow> drop_terminator (r @ t) = drop_terminator r @ t"
proof (induction r rule: drop_terminator.induct)
  case 1
  then show ?case by simp
next
  case (2 c)
  then show ?case by (cases t) simp_all
next
  case (3 c d r)
  then show ?case by simp
qed

lemma drop_terminator_length: "r \<noteq> [] \<Longrightarrow> length (drop_terminator r) < length r"
  by (induction r rule: drop_terminator.induct) simp_all

lemma splitlines_append_LF:
  "splitlines (x @ CHR 0x0A # rest) = splitlines (x @ [CHR 0x0A]) @ splitlines rest"
proof (induction "length x" arbitrary: x rule: less_induct)
  case less
  let ?P = "\<lambda>c. \<not> is_linebreak c"
  let ?d = "dropWhile ?P x"
  have t1: "takeWhile ?P (x @ CHR 0x0A # rest) = takeWhile ?P x"
    and t2: "takeWhile ?P (x @ [CHR 0x0A]) = takeWhile ?P x"
    by (simp_all add: takeWhile_stop LF_linebreak)
  have d1: "dropWhile ?P (x @ CHR 0x0A # rest) = ?d @ CHR 0x0A # rest"
    and d2: "dropWhile ?P (x @ [CHR 0x0A]) = ?d @ [CHR 0x0A]"
    by (simp_all add: dropWhile_stop LF_linebreak)
  have L: "splitlines (x @ CHR 0x0A # rest)
      = takeWhile ?P x # splitlines (drop_terminator (?d @ CHR 0x0A # rest))"
    by (simp add: splitlines.simps[of "x @ CHR 0x0A # rest"] t1 d1)
  have R: "splitlines (x @ [CHR 0x0A])
      = takeWhile ?P x # splitlines (drop_terminator (?d @ [CHR 0x0A]))"
    by (simp add: splitlines.simps[of "x @ [CHR 0x0A]"] t2 d2)
  have "splitlines (drop_terminator (?d @ CHR 0x0A # rest))
      = splitlines (drop_terminator (?d @ [CHR 0x0A])) @ splitlines rest"
  proof (cases "?d = [] \<or> ?d = [CHR 0x0D]")
    case True
    then show ?thesis
    proof
      assume e: "?d = []"
      have "drop_terminator (?d @ CHR 0x0A # rest) = rest"
        unfolding e by (cases rest) simp_all
      moreover have "drop_terminator (?d @ [CHR 0x0A]) = []"
        unfolding e by simp
      ultimately show ?thesis by (simp only: splitlines_Nil append_Nil)
    next
      assume e: "?d = [CHR 0x0D]"
      have "drop_terminator (?d @ CHR 0x0A # rest) = rest"
        unfolding e by simp
      moreover have "drop_terminator (?d @ [CHR 0x0A]) = []"
        unfolding e by simp
      ultimately show ?thesis by (simp only: splitlines_Nil append_Nil)
    qed
  next
    case False
    then have ne: "?d \<noteq> []" "?d \<noteq> [CHR 0x0D]" by simp_all
    have "length (drop_terminator ?d) < length ?d" using ne(1) by (rule drop_terminator_length)
    also have "\<dots> \<le> length x" by (rule length_dropWhile_le)
    finally have sh: "length (drop_terminator ?d) < length x" .
    have a: "drop_terminator (?d @ CHR 0x0A # rest) = drop_terminator ?d @ CHR 0x0A # rest"
      using ne by (rule drop_terminator_append)
    have b: "drop_terminator (?d @ [CHR 0x0A]) = drop_terminator ?d @ [CHR 0x0A]"
      using ne by (rule drop_terminator_append)
    show ?thesis unfolding a b using less[OF sh] .
  qed
  then show ?case unfolding L R by simp
qed

lemma splitlines_join:
  "os \<noteq> [] \<Longrightarrow> splitlines (join [CHR 0x0A] os @ [CHR 0x0A]) = flat_lines os"
proof (induction os)
  case Nil
  then show ?case by simp
next
  case (Cons x xs)
  note IH = Cons.IH
  show ?case
  proof (cases xs)
    case Nil
    then show ?thesis by (simp add: flat_lines_def written_lines_def)
  next
    case (Cons y ys)
    have e: "join [CHR 0x0A] (x # y # ys) @ [CHR 0x0A]
        = x @ CHR 0x0A # (join [CHR 0x0A] (y # ys) @ [CHR 0x0A])"
      by simp
    have "splitlines (join [CHR 0x0A] (x # y # ys) @ [CHR 0x0A])
        = splitlines (x @ [CHR 0x0A]) @ splitlines (join [CHR 0x0A] (y # ys) @ [CHR 0x0A])"
      unfolding e by (rule splitlines_append_LF)
    also have "splitlines (join [CHR 0x0A] (y # ys) @ [CHR 0x0A]) = flat_lines (y # ys)"
      using IH Cons by simp
    finally show ?thesis using Cons by (simp add: flat_lines_def written_lines_def)
  qed
qed

lemma flat_lines_clean:
  "\<forall>l\<in>set ls. \<forall>c\<in>set l. \<not> is_linebreak c \<Longrightarrow> flat_lines ls = ls"
  by (induction ls) (simp_all add: flat_lines_def written_lines_def splitlines_single)

lemma flat_lines_append: "flat_lines (xs @ ys) = flat_lines xs @ flat_lines ys"
  by (simp add: flat_lines_def)

subsection \<open>Lines up to the first macro line\<close>

lemma marked_lines_single_macro:
  assumes mf: "\<forall>l\<in>set xs. DEFINE_RE_match l = None"
  shows "t \<in> marked_lines (xs @ [d]) \<longleftrightarrow>
         DEFINE_RE_match d \<noteq> None \<and>
         (\<exists>a b. find_docblock_above (xs @ [d]) (int (length xs)) = Inr (Some (a, b)) \<and> a \<le> t \<and> t \<le> b)"
proof -
  have only: "i = length xs \<and> DEFINE_RE_match d \<noteq> None"
    if "i < length (xs @ [d])" "DEFINE_RE_match ((xs @ [d]) ! i) \<noteq> None" for i
  proof (cases "i < length xs")
    case True
    then have "(xs @ [d]) ! i \<in> set xs" by (simp add: nth_append)
    then have "DEFINE_RE_match ((xs @ [d]) ! i) = None" using mf by auto
    then show ?thesis using that(2) by simp
  next
    case False
    then have "i = length xs" using that(1) by simp
    then show ?thesis using that(2) by simp
  qed
  show ?thesis
  proof
    assume "t \<in> marked_lines (xs @ [d])"
    then obtain i a b where h: "i < length (xs @ [d])" "DEFINE_RE_match ((xs @ [d]) ! i) \<noteq> None"
      "find_docblock_above (xs @ [d]) (int i) = Inr (Some (a, b))" "a \<le> t" "t \<le> b"
      unfolding marked_lines_def by blast
    from only[OF h(1,2)] h(3,4,5)
    show "DEFINE_RE_match d \<noteq> None \<and>
         (\<exists>a b. find_docblock_above (xs @ [d]) (int (length xs)) = Inr (Some (a, b)) \<and> a \<le> t \<and> t \<le> b)"
      by blast
  next
    assume r: "DEFINE_RE_match d \<noteq> None \<and>
         (\<exists>a b. find_docblock_above (xs @ [d]) (int (length xs)) = Inr (Some (a, b)) \<and> a \<le> t \<and> t \<le> b)"
    then obtain a b where h: "find_docblock_above (xs @ [d]) (int (length xs)) = Inr (Some (a, b))"
      "a \<le> t" "t \<le> b" by blast
    have "length xs < length (xs @ [d])" by simp
    moreover have "DEFINE_RE_match ((xs @ [d]) ! length xs) \<noteq> None" using r by simp
    ultimately show "t \<in> marked_lines (xs @ [d])"
      unfolding marked_lines_def using h by blast
  qed
qed

lemma line_output_plain: "DEFINE_RE_match l = None \<Longrightarrow> line_output build l = [l]"
  by (simp add: line_output_def)

lemma concat_singletons: "concat (map (\<lambda>k. [xs ! k]) [m..<n]) = map (\<lambda>k. xs ! k) [m..<n]"
  by (induction n) simp_all

lemma pieces_outside_range:
  assumes "0 \<le> a" and "a \<le> b" and "b < int (length xs)"
  shows "concat (map (\<lambda>k. if a \<le> int k \<and> int k \<le> b then [] else [xs ! k]) [0..<length xs])
         = take (nat a) xs @ drop (Suc (nat b)) xs"
proof -
  let ?f = "\<lambda>k. if a \<le> int k \<and> int k \<le> b then [] else [xs ! k]"
  let ?n = "length xs"
  define m where "m = nat a"
  define q where "q = Suc (nat b)"
  have mq: "m \<le> q" "q \<le> ?n" using assms unfolding m_def q_def by linarith+
  have in_m: "\<not> (a \<le> int k \<and> int k \<le> b)" if "k < m" for k
    using that assms unfolding m_def by linarith
  have in_mid: "a \<le> int k \<and> int k \<le> b" if "m \<le> k" "k < q" for k
    using that assms unfolding m_def q_def by linarith
  have in_q: "\<not> (a \<le> int k \<and> int k \<le> b)" if "q \<le> k" for k
    using that assms unfolding q_def by linarith
  have s1: "[0..<?n] = [0..<q] @ [q..<?n]"
    using upt_add_eq_append[of 0 q "?n - q"] mq by simp
  have s2: "[0..<q] = [0..<m] @ [m..<q]"
    using upt_add_eq_append[of 0 m "q - m"] mq by simp
  have p1: "map ?f [0..<m] = map (\<lambda>k. [xs ! k]) [0..<m]"
    by (rule map_cong[OF refl]) (use in_m in auto)
  have p2: "map ?f [m..<q] = map (\<lambda>k. []) [m..<q]"
    by (rule map_cong[OF refl]) (use in_mid in auto)
  have p3: "map ?f [q..<?n] = map (\<lambda>k. [xs ! k]) [q..<?n]"
    by (rule map_cong[OF refl]) (use in_q in auto)
  have t: "map (\<lambda>k. xs ! k) [0..<m] = take m xs"
  proof -
    have "take m (map (\<lambda>k. xs ! k) [0..<?n]) = map (\<lambda>k. xs ! k) [0..<m]"
      using mq by (simp add: take_map)
    then show ?thesis by (simp add: map_nth)
  qed
  have dr: "map (\<lambda>k. xs ! k) [q..<?n] = drop q xs"
  proof -
    have "drop q (map (\<lambda>k. xs ! k) [0..<?n]) = map (\<lambda>k. xs ! k) [q..<?n]"
      by (simp add: drop_map)
    then show ?thesis by (simp add: map_nth)
  qed
  have "concat (map ?f [0..<?n])
      = concat (map ?f [0..<m]) @ concat (map ?f [m..<q]) @ concat (map ?f [q..<?n])"
    by (subst s1, subst s2) (simp only: map_append concat_append append_assoc)
  also have "\<dots> = take m xs @ drop q xs"
    unfolding p1 p2 p3 concat_singletons t dr by simp
  finally show ?thesis unfolding m_def q_def .
qed

lemma rewrite_lines_single_macro:
  assumes mf: "\<forall>l\<in>set xs. DEFINE_RE_match l = None" and d: "DEFINE_RE_match d \<noteq> None"
  shows "rewrite_lines build (xs @ [d]) = kept_above xs d @ line_output build d"
proof -
  let ?w = "xs @ [d]"
  let ?n = "length xs"
  have lo: "line_output build (xs ! k) = [xs ! k]" if "k < ?n" for k
    using mf that by (simp add: line_output_plain)
  obtain r where r: "find_docblock_above ?w (int ?n) = Inr r"
    using find_docblock_above_total[of "int ?n" ?w] by auto
  have "concat (map (\<lambda>k. if int k \<in> marked_lines ?w then [] else line_output build (xs ! k)) [0..<?n])
      = kept_above xs d"
  proof (cases r)
    case None
    have "\<And>t. t \<notin> marked_lines ?w"
      using marked_lines_single_macro[OF mf, of _ d] r None by simp
    then have e: "map (\<lambda>k. if int k \<in> marked_lines ?w then [] else line_output build (xs ! k)) [0..<?n]
        = map (\<lambda>k. [xs ! k]) [0..<?n]"
      using lo by (intro map_cong[OF refl]) simp
    show ?thesis
      unfolding e using r None by (simp add: kept_above_def concat_singletons map_nth)
  next
    case (Some p)
    obtain a b where p: "p = (a, b)" by (cases p)
    have fd: "find_docblock_above ?w (int ?n) = Inr (Some (a, b))" using r Some p by simp
    then have ba: "block_above ?w (int ?n) a b"
      using find_docblock_above_iff[of "int ?n" ?w a b] by simp
    then have bnd: "0 \<le> a" "a \<le> b" "b < int ?n" by (simp_all add: block_above_def)
    have mk: "t \<in> marked_lines ?w \<longleftrightarrow> a \<le> t \<and> t \<le> b" for t
      using marked_lines_single_macro[OF mf, of t d] d fd by simp
    have e: "map (\<lambda>k. if int k \<in> marked_lines ?w then [] else line_output build (xs ! k)) [0..<?n]
        = map (\<lambda>k. if a \<le> int k \<and> int k \<le> b then [] else [xs ! k]) [0..<?n]"
      using lo mk by (intro map_cong[OF refl]) simp
    show ?thesis
      unfolding e pieces_outside_range[OF bnd] using fd by (simp add: kept_above_def)
  qed
  then show ?thesis using rewrite_lines_macro_last[OF d, of build xs] by simp
qed

lemma kept_above_subset: "set (kept_above xs d) \<subseteq> set xs"
proof -
  have "set (take m xs @ drop n xs) \<subseteq> set xs" for m n
    by (auto dest: in_set_takeD in_set_dropD)
  then show ?thesis by (auto simp: kept_above_def split: sum.splits option.splits)
qed

subsection \<open>The search on the output of a run\<close>

lemma generated_block_plain:
  assumes "generated_block dl" and "l \<in> set dl"
  shows "DEFINE_RE_match l = None"
proof (rule ccontr)
  assume "DEFINE_RE_match l \<noteq> None"
  then obtain p where p: "DEFINE_RE_match l = Some p" by auto
  note n = define_line_not_comment[OF p]
  from assms(1) have ne: "dl \<noteq> []" and h: "occurs_in ''/**'' (hd dl)"
    and t: "\<forall>l\<in>set (tl dl). \<not> occurs_in ''/**'' l \<and> comment_body l"
    unfolding generated_block_def by simp_all
  have "l = hd dl \<or> l \<in> set (tl dl)" using assms(2) ne by (cases dl) auto
  then show False using h t n by auto
qed

lemma generated_block_found:
  assumes gb: "generated_block dl"
  shows "find_docblock_above ((F @ dl) @ [d]) (int (length (F @ dl)))
           = Inr (Some (int (length F), int (length F + length dl) - 1))"
proof -
  let ?w = "(F @ dl) @ [d]"
  let ?i = "int (length (F @ dl))"
  let ?a = "int (length F)"
  let ?b = "int (length F + length dl) - 1"
  from gb have ne: "dl \<noteq> []" and h: "occurs_in ''/**'' (hd dl)" and e: "occurs_in ''*/'' (last dl)"
    and t: "\<forall>l\<in>set (tl dl). \<not> occurs_in ''/**'' l \<and> comment_body l"
    unfolding generated_block_def by simp_all
  have len: "0 < length dl" using ne by simp
  have at: "?w ! nat u = dl ! (nat u - length F)" if "?a \<le> u" "u \<le> ?b" for u
  proof -
    have "length F \<le> nat u" "nat u - length F < length dl" using that len by linarith+
    then show ?thesis by (simp add: nth_append)
  qed
  have wa: "?w ! nat ?a = hd dl"
    using at[of ?a] len ne by (simp add: hd_conv_nth)
  have wb: "?w ! nat ?b = last dl"
  proof -
    have "nat ?b - length F = length dl - 1" using len by linarith
    then show ?thesis using at[of ?b] len ne by (simp add: last_conv_nth)
  qed
  have body: "\<not> occurs_in ''/**'' (?w ! nat u) \<and> comment_body (?w ! nat u)" if "?a < u" "u \<le> ?b" for u
  proof -
    define k where "k = nat u - length F"
    have k: "0 < k" "k < length dl" using that len unfolding k_def by linarith+
    then obtain k' where k': "k = Suc k'" by (cases k) auto
    have "dl ! k = tl dl ! k'" using k k' ne by (cases dl) auto
    moreover have "k' < length (tl dl)" using k k' by simp
    ultimately have "dl ! k \<in> set (tl dl)" by (metis nth_mem)
    then show ?thesis using t at[of u] that unfolding k_def by simp
  qed
  have "block_above ?w ?i ?a ?b"
    unfolding block_above_def
  proof (intro conjI allI impI)
    show "0 \<le> ?a" by simp
    show "?a \<le> ?b" using len by linarith
    show "?b < ?i" by simp
    show "strip (?w ! nat u) = []" if "?b < u \<and> u < ?i" for u
    proof -
      have False using that by (simp, linarith)
      then show ?thesis ..
    qed
    show "occurs_in ''*/'' (?w ! nat ?b)" using e wb by simp
    show "occurs_in ''/**'' (?w ! nat ?a)" using h wa by simp
    show "\<not> occurs_in ''/**'' (?w ! nat u)" if "?a < u \<and> u \<le> ?b" for u
      using body[of u] that by simp
    show "comment_body (?w ! nat u)" if "?a < u \<and> u \<le> ?b" for u
      using body[of u] that by simp
  qed
  moreover have "?i \<le> int (length ?w)" by simp
  ultimately show ?thesis using find_docblock_above_iff[of ?i ?w ?a ?b] by blast
qed

lemma kept_above_generated:
  assumes "generated_block dl"
  shows "kept_above (F @ dl) d = F"
proof -
  have ne: "dl \<noteq> []" using assms by (simp add: generated_block_def)
  then have "Suc (nat (int (length F + length dl) - 1)) = length F + length dl"
    by (cases dl) simp_all
  then show ?thesis
    unfolding kept_above_def generated_block_found[OF assms] by simp
qed

lemma find_none_prefix:
  assumes "find_docblock_above (xs @ ys) i = Inr None" and "i \<le> int (length xs)"
  shows "find_docblock_above xs i = Inr None"
proof -
  obtain r where r: "find_docblock_above xs i = Inr r"
    using find_docblock_above_total[OF assms(2)] by auto
  show ?thesis
  proof (cases r)
    case None
    then show ?thesis using r by simp
  next
    case (Some p)
    obtain a b where p: "p = (a, b)" by (cases p)
    have "block_above xs i a b"
      using r Some p find_docblock_above_iff[OF assms(2), of a b] by simp
    then have "block_above (xs @ ys) i a b" using block_above_prefix[OF assms(2)] by simp
    moreover have "i \<le> int (length (xs @ ys))" using assms(2) by simp
    ultimately have "find_docblock_above (xs @ ys) i = Inr (Some (a, b))"
      using find_docblock_above_iff[of i "xs @ ys" a b] by blast
    then show ?thesis using assms(1) by simp
  qed
qed

lemma kept_above_none:
  assumes "find_docblock_above (pre @ d # rest) (int (length pre)) = Inr None"
  shows "kept_above pre d = pre"
proof -
  have "find_docblock_above ((pre @ [d]) @ rest) (int (length pre)) = Inr None"
    using assms by simp
  then have "find_docblock_above (pre @ [d]) (int (length pre)) = Inr None"
    by (rule find_none_prefix) simp
  then show ?thesis by (simp add: kept_above_def)
qed

lemma find_none_after_barrier:
  assumes d: "DEFINE_RE_match d \<noteq> None"
    and f: "find_docblock_above (pre @ d # rest) (int (j + Suc (length pre))) = Inr None"
    and j: "j < length rest"
  shows "find_docblock_above rest (int j) = Inr None"
proof -
  obtain q where q: "DEFINE_RE_match d = Some q" using d by auto
  have bar: "\<not> comment_body d" "\<not> occurs_in ''/**'' d"
    using define_line_not_comment[OF q] by simp_all
  have jl: "int j \<le> int (length rest)" using j by simp
  obtain r where r: "find_docblock_above rest (int j) = Inr r"
    using find_docblock_above_total[OF jl] by auto
  show ?thesis
  proof (cases r)
    case None
    then show ?thesis using r by simp
  next
    case (Some p)
    obtain a b where p: "p = (a, b)" by (cases p)
    let ?k = "int (length pre) + 1"
    have ba: "block_above rest (int j) a b"
      using r Some p find_docblock_above_iff[OF jl, of a b] by simp
    then have a0: "0 \<le> a" by (simp add: block_above_def)
    have "block_above (pre @ d # rest) (int j + ?k) (a + ?k) (b + ?k)"
      using block_above_after_barrier[OF bar, of "int j" pre rest "a + ?k" "b + ?k"] ba a0 by simp
    moreover have e: "int j + ?k = int (j + Suc (length pre))" by simp
    moreover have "int (j + Suc (length pre)) \<le> int (length (pre @ d # rest))" using j by simp
    ultimately have "find_docblock_above (pre @ d # rest) (int (j + Suc (length pre)))
        = Inr (Some (a + ?k, b + ?k))"
      using find_docblock_above_iff[of "int (j + Suc (length pre))" "pre @ d # rest" "a + ?k" "b + ?k"]
      by simp
    then show ?thesis using f by simp
  qed
qed

lemma settled_rest:
  assumes d: "DEFINE_RE_match d \<noteq> None"
    and s: "settled build (pre @ d # rest) (j + Suc (length pre))"
    and j: "j < length rest"
  shows "settled build rest j"
proof -
  have n: "(pre @ d # rest) ! (j + Suc (length pre)) = rest ! j"
    by (simp add: nth_append)
  show ?thesis
  proof (cases "DEFINE_RE_match (rest ! j)")
    case None
    then show ?thesis by (simp add: settled_def)
  next
    case (Some p)
    obtain g1 g2 where p: "p = (g1, g2)" by (cases p)
    show ?thesis
    proof (cases "build g1")
      case None
      then have "find_docblock_above (pre @ d # rest) (int (j + Suc (length pre))) = Inr None"
        using s Some p n by (simp add: settled_def)
      then have "find_docblock_above rest (int j) = Inr None"
        using find_none_after_barrier[OF d _ j] by blast
      then show ?thesis using Some p None by (simp add: settled_def)
    next
      case (Some doc)
      note bd = this
      show ?thesis
      proof (cases "doc = []")
        case True
        then have "find_docblock_above (pre @ d # rest) (int (j + Suc (length pre))) = Inr None"
          using s \<open>DEFINE_RE_match (rest ! j) = Some p\<close> p n bd by (simp add: settled_def)
        then have "find_docblock_above rest (int j) = Inr None"
          using find_none_after_barrier[OF d _ j] by blast
        then show ?thesis using \<open>DEFINE_RE_match (rest ! j) = Some p\<close> p bd True
          by (simp add: settled_def)
      next
        case False
        then show ?thesis
          using s \<open>DEFINE_RE_match (rest ! j) = Some p\<close> p n bd by (simp add: settled_def)
      qed
    qed
  qed
qed

section \<open>The synthesizer\<close>

lemma doc_signature_None_iff:
  "doc_signature gl_name reg refs = None \<longleftrightarrow>
     c_signature refs gl_name = None \<and> c_signature refs (resolve_alias reg gl_name) = None \<and>
     signature reg (resolve_alias reg gl_name) = None"
  unfolding doc_signature_def signature_canonical_def Let_def
  by (cases "c_signature refs gl_name"; cases "c_signature refs (resolve_alias reg gl_name)";
      cases "signature reg (resolve_alias reg gl_name)"; cases "resolve_alias reg gl_name = gl_name")
     auto

lemma build_doc_lines_None_iff:
  "build_doc_lines gl_name reg refs = None \<longleftrightarrow> doc_signature gl_name reg refs = None"
  unfolding build_doc_lines_def Let_def
  by (cases "doc_signature gl_name reg refs") auto

lemma first_available_single [simp]: "first_available [x] = x"
  by (cases x) simp_all

lemma doc_signature_sources:
  "doc_signature gl_name reg refs = first_available (signature_sources gl_name reg refs)"
proof (cases "resolve_alias reg gl_name = gl_name")
  case True
  then show ?thesis
    unfolding doc_signature_def signature_sources_def signature_canonical_def Let_def
    by (cases "c_signature refs gl_name"; cases "signature reg gl_name") auto
next
  case False
  then show ?thesis
    unfolding doc_signature_def signature_sources_def signature_canonical_def Let_def
    by (cases "c_signature refs gl_name"; cases "c_signature refs (resolve_alias reg gl_name)";
        cases "signature reg (resolve_alias reg gl_name)") auto
qed

lemma brief_sources:
  "(if brief refs gl_name = None \<and> resolve_alias reg gl_name \<noteq> gl_name
    then brief refs (resolve_alias reg gl_name) else brief refs gl_name)
   = first_available [brief refs gl_name, brief refs (resolve_alias reg gl_name)]"
  by (cases "brief refs gl_name"; cases "resolve_alias reg gl_name = gl_name") auto

lemma endswith_period: "t \<noteq> [] \<Longrightarrow> endswith t ''.'' \<longleftrightarrow> last t = CHR ''.''"
proof -
  assume t: "t \<noteq> []"
  then have "t = butlast t @ [last t]" by simp
  then have "drop (length t - 1) t = drop (length (butlast t)) (butlast t @ [last t])"
    by simp
  then have "drop (length t - 1) t = [last t]" by simp
  then show ?thesis using t by (auto simp: endswith_def Suc_le_eq)
qed

lemma brief_line_eq:
  "(if truthy b
    then (if \<not> endswith (or_empty b) ''.''
          then ['' * '' @ bsl @ ''brief '' @ or_empty b @ ''.'']
          else ['' * '' @ bsl @ ''brief '' @ or_empty b])
    else []) = brief_line b"
  by (cases b) (auto simp: truthy_def or_empty_def brief_line_def endswith_period)

lemma descriptions_sources:
  "(if param_descriptions refs gl_name = [] \<and> resolve_alias reg gl_name \<noteq> gl_name
    then param_descriptions refs (resolve_alias reg gl_name) else param_descriptions refs gl_name)
   = doc_descriptions gl_name reg refs"
  by (auto simp: doc_descriptions_def)

lemma find_append:
  "List.find P (xs @ ys) = (case List.find P xs of None \<Rightarrow> List.find P ys | Some x \<Rightarrow> Some x)"
  by (induction xs) auto

lemma map_of_fold_by_name:
  "map_of (fold (\<lambda>rp d. AList.update (p_name rp) rp d) ps acc) nm
     = (case List.find (\<lambda>rp. p_name rp = nm) (rev ps) of None \<Rightarrow> map_of acc nm | Some rp \<Rightarrow> Some rp)"
proof (induction ps arbitrary: acc)
  case Nil
  then show ?case by simp
next
  case (Cons p ps)
  show ?case
    by (cases "List.find (\<lambda>rp. p_name rp = nm) (rev ps)")
       (auto simp: Cons find_append update_conv')
qed

lemma registry_param_eq:
  "map_of (case signature_canonical reg gl_name of
             None \<Rightarrow> []
           | Some (ret_r, params_r, canon_r) \<Rightarrow>
               fold (\<lambda>rp d. AList.update (p_name rp) rp d) params_r []) pname
   = registry_param gl_name reg pname"
  unfolding signature_canonical_def registry_param_def Let_def
  by (cases "signature reg (resolve_alias reg gl_name)")
     (auto simp: map_of_fold_by_name split: option.splits)

lemma trailer_eq: "make_param_trailer_from_reg rp = trailer_text rp"
  by (cases rp)
     (auto simp: make_param_trailer_from_reg_def trailer_text_def Let_def truthy_def or_empty_def
           split: option.splits)

lemma param_line_eq:
  "make_param_line_with_desc pname ptype (map_of (doc_descriptions gl_name reg refs) pname)
     (make_param_trailer_from_reg (registry_param gl_name reg pname))
   = param_line gl_name reg refs (ptype, pname)"
  by (cases "map_of (doc_descriptions gl_name reg refs) pname")
     (auto simp: make_param_line_with_desc_def param_line_def trailer_eq truthy_def or_empty_def)

lemma param_lines_seen:
  "param_lines rpbn pdesc seen ps =
     map (\<lambda>i. make_param_line_with_desc (snd (ps ! i)) (fst (ps ! i)) (map_of pdesc (snd (ps ! i)))
                 (make_param_trailer_from_reg (map_of rpbn (snd (ps ! i)))))
       (filter (\<lambda>i. snd (ps ! i) \<notin> seen \<union> snd ` set (take i ps)) [0..<length ps])"
proof (induction rpbn pdesc seen ps rule: param_lines.induct)
  case (1 rpbn pdesc seen)
  then show ?case by simp
next
  case (2 rpbn pdesc seen ptype pname ps)
  let ?L = "\<lambda>qs i. make_param_line_with_desc (snd (qs ! i)) (fst (qs ! i)) (map_of pdesc (snd (qs ! i)))
                 (make_param_trailer_from_reg (map_of rpbn (snd (qs ! i))))"
  let ?q = "(ptype, pname) # ps"
  have up: "[0..<length ?q] = 0 # map Suc [0..<length ps]"
    by (simp add: upt_conv_Cons map_Suc_upt del: upt_Suc)
  have tl: "map (?L ?q) (filter (\<lambda>i. snd (?q ! i) \<notin> S \<union> snd ` set (take i ?q)) (map Suc [0..<length ps]))
      = map (?L ps) (filter (\<lambda>i. snd (ps ! i) \<notin> insert pname S \<union> snd ` set (take i ps)) [0..<length ps])"
    for S
    by (simp add: filter_map comp_def conj_ac)
  show ?case
  proof (cases "pname \<in> seen")
    case True
    then have s: "insert pname seen = seen" by auto
    have "param_lines rpbn pdesc seen ?q = param_lines rpbn pdesc seen ps" using True by simp
    also have "\<dots> = map (?L ps)
        (filter (\<lambda>i. snd (ps ! i) \<notin> seen \<union> snd ` set (take i ps)) [0..<length ps])"
      using "2.IH"(1)[OF True] .
    also have "\<dots> = map (?L ?q)
        (filter (\<lambda>i. snd (?q ! i) \<notin> seen \<union> snd ` set (take i ?q)) (map Suc [0..<length ps]))"
      using tl[of seen] s by simp
    also have "\<dots> = map (?L ?q)
        (filter (\<lambda>i. snd (?q ! i) \<notin> seen \<union> snd ` set (take i ?q)) [0..<length ?q])"
      unfolding up using True by simp
    finally show ?thesis .
  next
    case False
    have "param_lines rpbn pdesc seen ?q
        = ?L ?q 0 # param_lines rpbn pdesc (insert pname seen) ps"
      using False by (simp add: Let_def)
    also have "param_lines rpbn pdesc (insert pname seen) ps = map (?L ps)
        (filter (\<lambda>i. snd (ps ! i) \<notin> insert pname seen \<union> snd ` set (take i ps)) [0..<length ps])"
      using "2.IH"(2)[OF False refl] .
    also have "\<dots> = map (?L ?q)
        (filter (\<lambda>i. snd (?q ! i) \<notin> seen \<union> snd ` set (take i ?q)) (map Suc [0..<length ps]))"
      using tl[of seen] by simp
    finally show ?thesis
      unfolding up using False by simp
  qed
qed

lemma param_lines_layout:
  "param_lines
     (case signature_canonical reg gl_name of
        None \<Rightarrow> []
      | Some (ret_r, params_r, canon_r) \<Rightarrow> fold (\<lambda>rp d. AList.update (p_name rp) rp d) params_r [])
     (doc_descriptions gl_name reg refs) {} ps
   = map (param_line gl_name reg refs) (first_occurrences ps)"
  unfolding param_lines_seen first_occurrences_def registry_param_eq param_line_eq
  by (simp add: comp_def)

lemma return_line_eq:
  "(if ret \<noteq> [] \<and> strip ret \<noteq> ''void'' then ['' * '' @ bsl @ ''return ('' @ ret @ '')''] else [])
   = return_line ret"
  by (simp add: return_line_def)

lemma see_line_eq:
  "'' * '' @ bsl @ ''see '' @ make_refpage_url (folder_tag refs) gl_name = see_line gl_name refs"
  by (simp add: see_line_def make_refpage_url_def)

lemma provenance_eq:
  "(let version = fst (version_or_exts reg gl_name);
        exts = snd (version_or_exts reg gl_name);
        note_parts =
          (if truthy version then [''Introduced in OpenGL '' @ or_empty version] else [])
          @ (if exts \<noteq> [] then [''Introduced by extension(s): '' @ join '', '' exts] else [])
    in (if note_parts \<noteq> [] then ['' * '' @ bsl @ ''note '' @ join '' | '' note_parts] else []))
   = provenance_note
       (first_available [map_of (introduced_version reg) gl_name,
                         map_of (introduced_version reg) (resolve_alias reg gl_name)])
       (sorted_list_of_set (extensions_of reg gl_name \<union> extensions_of reg (resolve_alias reg gl_name)))"
proof -
  have v: "fst (version_or_exts reg gl_name)
      = first_available [map_of (introduced_version reg) gl_name,
                         map_of (introduced_version reg) (resolve_alias reg gl_name)]"
    by (cases "map_of (introduced_version reg) gl_name") (simp_all add: version_or_exts_def Let_def)
  have e: "snd (version_or_exts reg gl_name)
      = sorted_list_of_set (extensions_of reg gl_name \<union> extensions_of reg (resolve_alias reg gl_name))"
    by (simp add: version_or_exts_def Let_def)
  show ?thesis
    unfolding v e Let_def provenance_note_def
    by (auto simp: truthy_def or_empty_def split: option.splits)
qed

lemma build_doc_lines_layout:
  "build_doc_lines gl_name reg refs
     = map_option (docblock_layout gl_name reg refs) (first_available (signature_sources gl_name reg refs))"
proof (cases "doc_signature gl_name reg refs")
  case None
  then show ?thesis
    using build_doc_lines_None_iff[of gl_name reg refs] by (simp add: doc_signature_sources)
next
  case (Some sig)
  obtain ret ps where sig: "sig = (ret, ps)" by (cases sig)
  have "build_doc_lines gl_name reg refs = Some (docblock_layout gl_name reg refs (ret, ps))"
    using provenance_eq[of reg gl_name]
    unfolding build_doc_lines_def Let_def Some sig brief_sources descriptions_sources
      brief_line_eq param_lines_layout return_line_eq see_line_eq docblock_layout_def
    by simp
  then show ?thesis using Some sig by (simp add: doc_signature_sources[symmetric])
qed


text \<open>
  Claim C8. \<^verbatim>\<open>build_doc\<close> returns \<^verbatim>\<open>None\<close> exactly when the reference pages have no
  C signature for the literal name and none for the canonical name, and the registry has
  no signature for the canonical name. In every other case it returns a docblock for the
  first signature available from these three sources, in this order, made from whatever
  else is there: the brief line from the first brief text available for the literal and
  the canonical name, and none without one; one parameter line for each distinct
  parameter name of that signature, with the description where the reference pages have
  one and the trailer where the registry has a group or a length for the name; the return
  line unless the return type is empty or \<^verbatim>\<open>void\<close>; the reference line; and the
  provenance note from the version and the extensions, as far as there are any.
\<close>

theorem build_doc_nothing_iff_no_signature:
  "(build_doc gl_name reg refs = None \<longleftrightarrow>
      c_signature refs gl_name = None \<and> c_signature refs (resolve_alias reg gl_name) = None \<and>
      signature reg (resolve_alias reg gl_name) = None) \<and>
   build_doc gl_name reg refs =
     map_option (\<lambda>sig. join [CHR 0x0A] (docblock_layout gl_name reg refs sig))
       (first_available (signature_sources gl_name reg refs))"
proof -
  have a: "build_doc gl_name reg refs = None \<longleftrightarrow> doc_signature gl_name reg refs = None"
    by (simp add: build_doc_def build_doc_lines_None_iff)
  have c: "build_doc gl_name reg refs = None \<longleftrightarrow>
      c_signature refs gl_name = None \<and> c_signature refs (resolve_alias reg gl_name) = None \<and>
      signature reg (resolve_alias reg gl_name) = None"
    using a doc_signature_None_iff[of gl_name reg refs] by simp
  have d: "build_doc gl_name reg refs =
     map_option (\<lambda>sig. join [CHR 0x0A] (docblock_layout gl_name reg refs sig))
       (first_available (signature_sources gl_name reg refs))"
    unfolding build_doc_def build_doc_lines_layout by (simp add: option.map_comp comp_def)
  show ?thesis using c d by (rule conjI)
qed

theorem build_doc_nothing_iff_no_signature_witness:
  "build_doc ''glBar'' reg_foo no_refs = None \<and>
   signature_sources ''glBar'' reg_foo no_refs = [None, None, None] \<and>
   signature_sources ''glFoo'' reg_foo_x refs_foo_prose = [None, None, Some (''void'', [(''GLint'', ''x'')])] \<and>
   brief refs_foo_prose ''glFoo'' = Some ''do foo'' \<and>
   map_of (param_descriptions refs_foo_prose ''glFoo'') ''x'' = Some ''Only x'' \<and>
   docblock_layout ''glFoo'' reg_foo_x refs_foo_prose (''void'', [(''GLint'', ''x'')]) = doc_foo_x \<and>
   build_doc ''glFoo'' reg_foo_x refs_foo_prose = Some (join [CHR 0x0A] doc_foo_x) \<and>
   signature_sources ''glFoo'' reg_foo no_refs = [None, None, Some (''void'', [])] \<and>
   build_doc ''glFoo'' reg_foo no_refs = Some doc_foo"
proof -
  have n: "signature_sources ''glBar'' reg_foo no_refs = [None, None, None]" by code_simp
  have s: "signature_sources ''glFoo'' reg_foo_x refs_foo_prose
      = [None, None, Some (''void'', [(''GLint'', ''x'')])]"
    by code_simp
  have b: "brief refs_foo_prose ''glFoo'' = Some ''do foo''"
    "map_of (param_descriptions refs_foo_prose ''glFoo'') ''x'' = Some ''Only x''"
    by code_simp+
  have l: "docblock_layout ''glFoo'' reg_foo_x refs_foo_prose (''void'', [(''GLint'', ''x'')]) = doc_foo_x"
    by code_simp
  have t: "signature_sources ''glFoo'' reg_foo no_refs = [None, None, Some (''void'', [])]"
    by code_simp
  have m: "join [CHR 0x0A] (docblock_layout ''glFoo'' reg_foo no_refs (''void'', [])) = doc_foo"
    by code_simp
  show ?thesis
    using build_doc_nothing_iff_no_signature[of "''glBar''" reg_foo no_refs]
      build_doc_nothing_iff_no_signature[of "''glFoo''" reg_foo_x refs_foo_prose]
      build_doc_nothing_iff_no_signature[of "''glFoo''" reg_foo no_refs]
      n s b l t m
    by simp
qed

lemma param_line_not_return:
  "\<not> is_return_line (make_param_line_with_desc pname ptype desc trailer)"
  by (simp add: is_return_line_def make_param_line_with_desc_def startswith_def)

lemma param_lines_not_return:
  "filter is_return_line (param_lines rp pdesc seen ps) = []"
  by (induction rp pdesc seen ps rule: param_lines.induct)
     (simp_all add: param_line_not_return Let_def)

text \<open>
  Claim C4, as amended. Where \<^verbatim>\<open>build_doc\<close> has a signature to work from, with return
  type \<open>ret\<close>, the docblock has exactly one return line, \<^verbatim>\<open>\return (ret)\<close>, when \<open>ret\<close>
  is not empty and is not \<^verbatim>\<open>void\<close> (white space around it aside), and no return line
  otherwise: neither for \<^verbatim>\<open>void\<close> nor for an empty return type.
\<close>

theorem return_line_unless_void:
  assumes "doc_signature gl_name reg refs = Some (ret, params_list)"
  shows "\<exists>ls. build_doc_lines gl_name reg refs = Some ls \<and>
           filter is_return_line ls =
             (if ret \<noteq> [] \<and> strip ret \<noteq> ''void''
              then ['' * '' @ bsl @ ''return ('' @ ret @ '')''] else [])"
proof -
  have r: "is_return_line ('' * '' @ bsl @ ''return ('' @ ret @ '')'')"
    by (simp add: is_return_line_def startswith_def)
  have n: "\<not> is_return_line ''/**''" "\<not> is_return_line '' */''"
    "\<And>x. \<not> is_return_line ('' * '' @ bsl @ ''brief '' @ x)"
    "\<And>x. \<not> is_return_line ('' * '' @ bsl @ ''see '' @ make_refpage_url x gl_name)"
    "\<And>x. \<not> is_return_line ('' * '' @ bsl @ ''note '' @ x)"
    by (simp_all add: is_return_line_def startswith_def make_refpage_url_def)
  show ?thesis
    unfolding build_doc_lines_def Let_def assms
    using r n by (simp add: param_lines_not_return)
qed

text \<open>
  Claim C4 as stated fails for the empty return type, which is not \<^verbatim>\<open>void\<close>: a
  registry command whose prototype holds its name only has the return type \<^verbatim>\<open>""\<close>,
  and its docblock has no return line.
\<close>

theorem return_line_any_other_type_counterexample:
  "doc_signature ''glFoo'' (GLRegistry_init root_untyped) no_refs = Some ([], []) \<and>
   [] \<noteq> ''void'' \<and>
   build_doc_lines ''glFoo'' (GLRegistry_init root_untyped) no_refs
     = Some [''/**'', see_foo, '' */''] \<and>
   filter is_return_line [''/**'', see_foo, '' */''] = []"
  by code_simp

theorem return_line_unless_void_witness:
  "doc_signature ''glBar'' reg_bar no_refs = Some (''GLuint'', []) \<and>
   (\<exists>ls. build_doc_lines ''glBar'' reg_bar no_refs = Some ls \<and>
      filter is_return_line ls = ['' * '' @ bsl @ ''return (GLuint)'']) \<and>
   doc_signature ''glFoo'' reg_foo no_refs = Some (''void'', []) \<and>
   (\<exists>ls. build_doc_lines ''glFoo'' reg_foo no_refs = Some ls \<and> filter is_return_line ls = [])"
proof -
  have b: "doc_signature ''glBar'' reg_bar no_refs = Some (''GLuint'', [])" by code_simp
  have f: "doc_signature ''glFoo'' reg_foo no_refs = Some (''void'', [])" by code_simp
  have s: "strip ''GLuint'' \<noteq> ''void''" "strip ''void'' = ''void''" by code_simp+
  show ?thesis
    using return_line_unless_void[OF b] return_line_unless_void[OF f] b f s by simp
qed

section \<open>The rewriter: adjacency and frame\<close>

text \<open>
  Claim C6, as amended. For a line \<open>i\<close> of the file, \<^verbatim>\<open>find_docblock_above\<close> returns
  the range \<open>(a, b)\<close> exactly when only blank lines lie between line \<open>b\<close> and line \<open>i\<close>,
  line \<open>b\<close> has \<^verbatim>\<open>*/\<close> in it, line \<open>a\<close> is the nearest line at or above \<open>b\<close> with
  \<^verbatim>\<open>/**\<close> in it, and every line after \<open>a\<close> up to \<open>b\<close> is blank or a comment-body line;
  the first pass marks exactly the ranges found for the lines that match the macro
  pattern; and a line above line \<open>i\<close> that is neither a comment-body line nor a line with
  \<^verbatim>\<open>/**\<close> lies above every range found from line \<open>i\<close>, so that nothing at or above it
  is marked on behalf of line \<open>i\<close>.
\<close>

theorem find_docblock_above_adjacency:
  assumes "i < length ls"
  shows "(find_docblock_above ls (int i) = Inr (Some (a, b)) \<longleftrightarrow>
            0 \<le> a \<and> a \<le> b \<and> b < int i \<and>
            (\<forall>t. b < t \<and> t < int i \<longrightarrow> strip (ls ! nat t) = []) \<and>
            occurs_in ''*/'' (ls ! nat b) \<and> occurs_in ''/**'' (ls ! nat a) \<and>
            (\<forall>t. a < t \<and> t \<le> b \<longrightarrow>
               \<not> occurs_in ''/**'' (ls ! nat t) \<and> comment_body (ls ! nat t))) \<and>
         prescan ls 0 {} = Inr (marked_lines ls) \<and>
         (\<forall>t. find_docblock_above ls (int i) = Inr (Some (a, b)) \<and> 0 \<le> t \<and> t < int i \<and>
              \<not> comment_body (ls ! nat t) \<and> \<not> occurs_in ''/**'' (ls ! nat t) \<longrightarrow> t < a)"
proof -
  have le: "int i \<le> int (length ls)" using assms by simp
  have iff: "find_docblock_above ls (int i) = Inr (Some (a, b)) \<longleftrightarrow> block_above ls (int i) a b"
    using le by (rule find_docblock_above_iff)
  have brk: "t < a" if h: "find_docblock_above ls (int i) = Inr (Some (a, b))" "0 \<le> t" "t < int i"
      "\<not> comment_body (ls ! nat t)" "\<not> occurs_in ''/**'' (ls ! nat t)" for t
  proof (rule ccontr)
    assume "\<not> t < a"
    then have at: "a \<le> t" by simp
    have ba: "block_above ls (int i) a b" using h(1) iff by simp
    show False
    proof (cases "t \<le> b")
      case True
      then show ?thesis using block_above_lines[OF ba at] h(4,5) by simp
    next
      case False
      then have "strip (ls ! nat t) = []" using ba h(3) by (simp add: block_above_def)
      then show ?thesis using h(4) by (simp add: comment_body_def)
    qed
  qed
  show ?thesis
    using iff brk by (simp add: block_above_def prescan_marked)
qed

text \<open>
  Claim C6 as stated fails where the lines between the block and the macro line are
  comment-body lines of which the last has no \<^verbatim>\<open>*/\<close>: the block \<^verbatim>\<open>/** a */\<close> is
  separated from the macro line by the comment-body line \<^verbatim>\<open> * stray\<close> only, the search
  gives no range, and the file passes through as it is.
\<close>

theorem find_docblock_above_adjacency_counterexample:
  "occurs_in ''/**'' (file_stray ! 0) \<and> occurs_in ''*/'' (file_stray ! 0) \<and>
   comment_body (file_stray ! 1) \<and>
   DEFINE_RE_match (file_stray ! 2) = Some (''glFoo'', ''glad_glFoo'') \<and>
   find_docblock_above file_stray 2 = Inr None \<and>
   process_lines (\<lambda>g. None) file_stray = Inr file_stray"
  by code_simp

theorem find_docblock_above_adjacency_witness:
  "find_docblock_above file_old 2 = Inr (Some (0, 0)) \<and>
   strip (file_old ! 1) = [] \<and>
   occurs_in ''*/'' (file_old ! 0) \<and> occurs_in ''/**'' (file_old ! 0) \<and>
   prescan file_old 0 {} = Inr (marked_lines file_old) \<and>
   process_lines (\<lambda>g. None) file_old = Inr ['''', ''#define glFoo glad_glFoo'', ''int x;'']"
proof -
  have l: "2 < length file_old" by (simp add: file_old_def)
  have f: "find_docblock_above file_old 2 = Inr (Some (0, 0))" by code_simp
  have p: "process_lines (\<lambda>g. None) file_old = Inr ['''', ''#define glFoo glad_glFoo'', ''int x;'']"
    by code_simp
  have h: "(\<forall>t. (0::int) < t \<and> t < 2 \<longrightarrow> strip (file_old ! nat t) = []) \<and>
      occurs_in ''*/'' (file_old ! nat 0) \<and> occurs_in ''/**'' (file_old ! nat 0) \<and>
      prescan file_old 0 {} = Inr (marked_lines file_old)"
    using find_docblock_above_adjacency[OF l, of 0 0] f by simp
  then have "(0::int) < 1 \<and> (1::int) < 2 \<longrightarrow> strip (file_old ! nat 1) = []" by blast
  then have "strip (file_old ! 1) = []" by simp
  with h have "strip (file_old ! 1) = [] \<and> occurs_in ''*/'' (file_old ! 0)
      \<and> occurs_in ''/**'' (file_old ! 0) \<and> prescan file_old 0 {} = Inr (marked_lines file_old)"
    by simp
  then show ?thesis using f p by simp
qed

text \<open>
  Claim C9. The output of the two passes is the input, line by line in its order: a
  marked line gives nothing, any other line gives itself, and a line that matches the
  macro pattern gives itself after the docblock synthesized for its first group, when
  that docblock is there and not empty; no line that matches the pattern is marked.
\<close>

theorem main_pass_frame:
  "process_lines build ls =
     Inr (concat (map (\<lambda>k. if int k \<in> marked_lines ls then []
                          else (case DEFINE_RE_match (ls ! k) of
                                  None \<Rightarrow> [ls ! k]
                                | Some (gl_name, internal) \<Rightarrow>
                                    (case build gl_name of
                                       None \<Rightarrow> [ls ! k]
                                     | Some doc \<Rightarrow> if doc \<noteq> [] then [doc, ls ! k] else [ls ! k])))
                   [0..<length ls])) \<and>
   (\<forall>k<length ls. DEFINE_RE_match (ls ! k) \<noteq> None \<longrightarrow> int k \<notin> marked_lines ls)"
  using process_lines_pieces[of build ls] macro_line_not_marked[of _ ls]
  unfolding line_output_def by simp

theorem main_pass_frame_witness:
  "DEFINE_RE_match (file_old ! 2) \<noteq> None \<and> int 2 \<notin> marked_lines file_old \<and>
   process_lines (\<lambda>g. build_doc g reg_foo no_refs) file_old
     = Inr ['''', doc_foo, ''#define glFoo glad_glFoo'', ''int x;'']"
proof -
  have l: "2 < length file_old" by (simp add: file_old_def)
  have d: "DEFINE_RE_match (file_old ! 2) \<noteq> None" by code_simp
  have p: "process_lines (\<lambda>g. build_doc g reg_foo no_refs) file_old
     = Inr ['''', doc_foo, ''#define glFoo glad_glFoo'', ''int x;'']"
    by code_simp
  have "int 2 \<notin> marked_lines file_old"
    using main_pass_frame[of "\<lambda>g. build_doc g reg_foo no_refs" file_old] l d by blast
  then show ?thesis using d p by simp
qed

section \<open>Macro lines with the internal prefix\<close>

lemma glad_line_shape:
  assumes "list_all is_ident_char X" and "list_all is_ident_char Y" and "Y \<noteq> []"
  shows "define_line_shape (''#define glad_gl'' @ X @ '' glad_gl'' @ Y) (''glad_gl'' @ X) (''glad_gl'' @ Y)"
proof -
  have i: "list_all is_ident_char ''ad_gl''" by (simp add: is_ident_char_def)
  have s: "list_all is_space '' ''" by (simp add: is_space_def)
  show ?thesis
    unfolding define_line_shape_def
    apply (rule exI[of _ "[]"], rule exI[of _ "[]"], rule exI[of _ "'' ''"], rule exI[of _ "'' ''"],
           rule exI[of _ "[]"], rule exI[of _ "''ad_gl'' @ X"], rule exI[of _ Y])
    using assms i s by simp
qed

text \<open>
  Claim C10. The first group of \<^verbatim>\<open>DEFINE_RE\<close> takes an identifier with the internal
  prefix as well: a line \<^verbatim>\<open>#define glad_glX glad_glY\<close>, with \<open>X\<close> and \<open>Y\<close> made of the
  characters of an identifier and \<open>Y\<close> not empty, matches with the groups \<^verbatim>\<open>glad_glX\<close>
  and \<^verbatim>\<open>glad_glY\<close>. Wherever such a line stands in the input, \<^verbatim>\<open>process\<close> treats it
  as a macro line: it calls the synthesizer for the name \<^verbatim>\<open>glad_glX\<close> and the output
  has, after what the lines before it give, the docblock for that name when there is one
  and it is not empty, then the line itself, then what the lines after it give.
\<close>

theorem define_matches_internal_prefix:
  assumes "list_all is_ident_char X" and "list_all is_ident_char Y" and "Y \<noteq> []"
  shows "DEFINE_RE_match (''#define glad_gl'' @ X @ '' glad_gl'' @ Y)
           = Some (''glad_gl'' @ X, ''glad_gl'' @ Y) \<and>
         process_lines build (pre @ (''#define glad_gl'' @ X @ '' glad_gl'' @ Y) # post) =
           Inr (concat (map (\<lambda>k. if int k \<in> marked_lines (pre @ [''#define glad_gl'' @ X @ '' glad_gl'' @ Y])
                                  then [] else line_output build (pre ! k))
                          [0..<length pre])
                @ (case build (''glad_gl'' @ X) of
                     None \<Rightarrow> []
                   | Some doc \<Rightarrow> if doc \<noteq> [] then [doc] else [])
                @ [''#define glad_gl'' @ X @ '' glad_gl'' @ Y]
                @ rewrite_lines build post) \<and>
         process_lines build post = Inr (rewrite_lines build post)"
proof -
  let ?l = "''#define glad_gl'' @ X @ '' glad_gl'' @ Y"
  have m: "DEFINE_RE_match ?l = Some (''glad_gl'' @ X, ''glad_gl'' @ Y)"
    using glad_line_shape[OF assms] by (rule DEFINE_RE_match_complete)
  then have d: "DEFINE_RE_match ?l \<noteq> None" by simp
  have lo: "line_output build ?l =
      (case build (''glad_gl'' @ X) of None \<Rightarrow> [] | Some doc \<Rightarrow> if doc \<noteq> [] then [doc] else []) @ [?l]"
    unfolding line_output_def m by (simp split: option.splits)
  have "rewrite_lines build (pre @ ?l # post)
      = rewrite_lines build (pre @ [?l]) @ rewrite_lines build post"
    using d by (rule rewrite_lines_split)
  then have "rewrite_lines build (pre @ ?l # post)
      = concat (map (\<lambda>k. if int k \<in> marked_lines (pre @ [?l]) then [] else line_output build (pre ! k))
                     [0..<length pre])
        @ (case build (''glad_gl'' @ X) of None \<Rightarrow> [] | Some doc \<Rightarrow> if doc \<noteq> [] then [doc] else [])
        @ [?l] @ rewrite_lines build post"
    unfolding rewrite_lines_macro_last[OF d] lo by simp
  then show ?thesis using m by (simp only: process_lines_rewrite simp_thms)
qed


theorem define_matches_internal_prefix_witness:
  "list_all is_ident_char ''Foo'' \<and>
   DEFINE_RE_match ''#define glad_glFoo glad_glFoo'' = Some (''glad_glFoo'', ''glad_glFoo'') \<and>
   build_doc ''glad_glFoo'' reg_glad_foo no_refs = Some doc_glad_foo \<and>
   process_lines (\<lambda>g. build_doc g reg_glad_foo no_refs)
       [''int x;'', ''#define glad_glFoo glad_glFoo'', ''int y;'']
     = Inr [''int x;'', doc_glad_foo, ''#define glad_glFoo glad_glFoo'', ''int y;''] \<and>
   build_doc ''glad_glFoo'' reg_foo no_refs = None \<and>
   process_lines (\<lambda>g. build_doc g reg_foo no_refs)
       [''int x;'', ''#define glad_glFoo glad_glFoo'', ''int y;'']
     = Inr [''int x;'', ''#define glad_glFoo glad_glFoo'', ''int y;'']"
proof -
  have i: "list_all is_ident_char ''Foo''" by (simp add: is_ident_char_def)
  have n: "''Foo'' \<noteq> []" by simp
  have b: "build_doc ''glad_glFoo'' reg_glad_foo no_refs = Some doc_glad_foo"
    "build_doc ''glad_glFoo'' reg_foo no_refs = None"
    by code_simp+
  have dne: "doc_glad_foo \<noteq> []" by (simp add: doc_glad_foo_def)
  have m: "int 0 \<notin> marked_lines ([''int x;''] @ [''#define glad_gl'' @ ''Foo'' @ '' glad_gl'' @ ''Foo''])"
  proof
    assume "int 0 \<in> marked_lines ([''int x;''] @ [''#define glad_gl'' @ ''Foo'' @ '' glad_gl'' @ ''Foo''])"
    then obtain i a b where h: "block_above [''int x;'', ''#define glad_glFoo glad_glFoo''] (int i) a b"
      "a \<le> 0" "0 \<le> b"
      unfolding marked_lines_iff by auto
    have "occurs_in ''/**'' ([''int x;'', ''#define glad_glFoo glad_glFoo''] ! nat 0) \<or>
          comment_body ([''int x;'', ''#define glad_glFoo glad_glFoo''] ! nat 0)"
      using block_above_lines[OF h(1), of 0] h(2,3) by simp
    moreover have "\<not> occurs_in ''/**'' ''int x;''" "\<not> comment_body ''int x;''" by code_simp+
    ultimately show False by simp
  qed
  have r: "rewrite_lines build [''int y;''] = [''int y;'']" for build
  proof -
    have "int 0 \<notin> marked_lines [''int y;'']"
      using marked_lines_bounds(2)[of "int 0" "[''int y;'']"] by auto
    moreover have "DEFINE_RE_match ''int y;'' = None" by code_simp
    ultimately show ?thesis by (simp add: rewrite_lines_def line_output_def)
  qed
  have lx: "line_output build ''int x;'' = [''int x;'']" for build
  proof -
    have "DEFINE_RE_match ''int x;'' = None" by code_simp
    then show ?thesis by (simp add: line_output_def)
  qed
  show ?thesis
    using define_matches_internal_prefix[OF i i n, of "\<lambda>g. build_doc g reg_glad_foo no_refs"
        "[''int x;'']" "[''int y;'']"]
      define_matches_internal_prefix[OF i i n, of "\<lambda>g. build_doc g reg_foo no_refs"
        "[''int x;'']" "[''int y;'']"]
      i b dne m r lx
    by simp
qed

end
